theory Spec2Isabelle
  imports Main "HOL-Library.Sublist"
begin

section \<open>JavaScript values of the generation workflow\<close>

text \<open>
  The generation route (\<^verbatim>\<open>apps/api/src/routes/generation.ts\<close>) and its two provider
  adapters (\<^verbatim>\<open>services/v0-service.ts\<close>, \<^verbatim>\<open>services/ai-service.ts\<close>) pass values of
  TypeScript type \<^verbatim>\<open>any\<close> around: whatever \<^verbatim>\<open>JSON.parse\<close> or \<^verbatim>\<open>response.json()\<close>
  produced. They are modelled as JSON values. A string is a list of bytes, the UTF-8
  form of the JavaScript string. A number keeps the text of its literal: the workflow
  never computes with a number, and where it prints or tests one (a number in the place
  of a file name or of \<^verbatim>\<open>files\<close>) the literal stands for the value, which is exact
  for the literals JavaScript itself writes. An object is the list of its members in the order of
  the text; a property read takes the last member of that name, as \<^verbatim>\<open>JSON.parse\<close>
  does for a repeated key. The JavaScript value \<^verbatim>\<open>undefined\<close> is \<open>None\<close> in
  \<open>json option\<close>.
\<close>

datatype json =
    JNull
  | JBool bool
  | JNum string
  | JStr string
  | JArr "json list"
  | JObj "(string \<times> json) list"

text \<open>A thrown JavaScript error, with its \<^verbatim>\<open>message\<close>.\<close>

datatype exn = Exn string

definition nl :: string where
  "nl = [CHR 0x0A]"

definition dq :: string where
  "dq = [CHR 0x22]"

definition sq :: string where
  "sq = [CHR 0x27]"

definition code_of :: "char \<Rightarrow> nat" where
  "code_of c = of_char c"

definition is_digit :: "char \<Rightarrow> bool" where
  "is_digit c = (48 \<le> code_of c \<and> code_of c \<le> 57)"

text \<open>
  Truthiness, as \<^verbatim>\<open>||\<close> and \<^verbatim>\<open>if\<close> test it: \<^verbatim>\<open>null\<close>, \<^verbatim>\<open>false\<close>, zero and the
  empty string are falsy. A number literal is zero when its mantissa has no digit
  other than 0.
\<close>

definition zero_literal :: "string \<Rightarrow> bool" where
  "zero_literal l =
     list_all (\<lambda>c. c = CHR ''0'')
       (filter is_digit (takeWhile (\<lambda>c. c \<noteq> CHR ''e'' \<and> c \<noteq> CHR ''E'') l))"

fun js_truthy :: "json \<Rightarrow> bool" where
  "js_truthy JNull = False"
| "js_truthy (JBool b) = b"
| "js_truthy (JNum l) = (\<not> zero_literal l)"
| "js_truthy (JStr s) = (s \<noteq> [])"
| "js_truthy (JArr xs) = True"
| "js_truthy (JObj kvs) = True"

text \<open>\<^verbatim>\<open>v || d\<close> for a value \<open>v\<close> that may be \<^verbatim>\<open>undefined\<close>.\<close>

definition js_or :: "json option \<Rightarrow> json \<Rightarrow> json" where
  "js_or v d = (case v of None \<Rightarrow> d | Some x \<Rightarrow> if js_truthy x then x else d)"

text \<open>
  A property read \<^verbatim>\<open>v.k\<close>, for the names the workflow reads (\<^verbatim>\<open>files\<close>,
  \<^verbatim>\<open>name\<close>, \<^verbatim>\<open>content\<close>, \<^verbatim>\<open>type\<close>, \<^verbatim>\<open>description\<close>, \<^verbatim>\<open>instructions\<close>), none of
  which a prototype defines: on \<^verbatim>\<open>null\<close> it throws a TypeError, on an object it is
  the member or \<^verbatim>\<open>undefined\<close>, on any other value it is \<^verbatim>\<open>undefined\<close>.
\<close>

fun js_get :: "json \<Rightarrow> string \<Rightarrow> exn + json option" where
  "js_get JNull k =
     Inl (Exn (''Cannot read properties of null (reading '' @ sq @ k @ sq @ '')''))"
| "js_get (JObj kvs) k = Inr (map_of (rev kvs) k)"
| "js_get v k = Inr None"

fun join_with :: "string \<Rightarrow> string list \<Rightarrow> string" where
  "join_with sep [] = []"
| "join_with sep [x] = x"
| "join_with sep (x # y # ys) = x @ sep @ join_with sep (y # ys)"

text \<open>
  The string a template literal \<^verbatim>\<open>${v}\<close> inserts. An array prints its elements
  joined by commas, with \<^verbatim>\<open>null\<close> elements empty; an object prints
  \<^verbatim>\<open>[object Object]\<close>; a number prints its literal.
\<close>

fun js_to_string :: "json \<Rightarrow> string" where
  "js_to_string JNull = ''null''"
| "js_to_string (JBool b) = (if b then ''true'' else ''false'')"
| "js_to_string (JNum l) = l"
| "js_to_string (JStr s) = s"
| "js_to_string (JArr xs) =
     join_with '','' (map (\<lambda>x. if x = JNull then [] else js_to_string x) xs)"
| "js_to_string (JObj kvs) = ''[object Object]''"

definition js_template :: "json option \<Rightarrow> string" where
  "js_template v = (case v of None \<Rightarrow> ''undefined'' | Some x \<Rightarrow> js_to_string x)"

text \<open>
  The code points of a string, which \<^verbatim>\<open>for ... of\<close> iterates: each byte that is not a
  UTF-8 continuation byte starts a new one and takes the continuation bytes after it.
\<close>

definition is_continuation :: "char \<Rightarrow> bool" where
  "is_continuation c = (128 \<le> code_of c \<and> code_of c < 192)"

fun utf8_points :: "string \<Rightarrow> string list" where
  "utf8_points [] = []"
| "utf8_points (c # cs) =
     (case utf8_points cs of
        [] \<Rightarrow> [[c]]
      | p # ps \<Rightarrow>
          (case p of
             [] \<Rightarrow> [c] # ps
           | d # ds \<Rightarrow> if is_continuation d then (c # p) # ps else [c] # p # ps))"

text \<open>
  The elements \<^verbatim>\<open>for (const file of files)\<close> visits: those of an array, the code
  points of a string; any other value is not iterable and the loop throws.
\<close>

fun js_iterate :: "json \<Rightarrow> exn + json list" where
  "js_iterate (JArr xs) = Inr xs"
| "js_iterate (JStr s) = Inr (map JStr (utf8_points s))"
| "js_iterate v = Inl (Exn ''files is not iterable'')"

section \<open>\<^verbatim>\<open>JSON.parse\<close>\<close>

text \<open>
  Both adapters parse text with the runtime's JSON parser (\<^verbatim>\<open>response.json()\<close> in
  the primary, \<^verbatim>\<open>JSON.parse\<close> in the fallback). It is modelled after the JSON grammar
  (ECMA-404): a lexer, then a stack machine over the tokens. \<open>None\<close> is the
  SyntaxError it throws.
\<close>

datatype token =
    T_lbrace | T_rbrace | T_lbrack | T_rbrack | T_comma | T_colon
  | T_str string
  | T_lit json

text \<open>
  A string body is read into units: a byte of the text, or the UTF-16 code unit of a
  \<^verbatim>\<open>\uXXXX\<close> escape. Two escapes forming a surrogate pair are one code point.
\<close>

datatype cunit = B char | U nat

definition is_hex :: "char \<Rightarrow> bool" where
  "is_hex c =
     (is_digit c \<or> (65 \<le> code_of c \<and> code_of c \<le> 70) \<or> (97 \<le> code_of c \<and> code_of c \<le> 102))"

definition hex_val :: "char \<Rightarrow> nat" where
  "hex_val c =
     (if is_digit c then code_of c - 48
      else if code_of c \<le> 70 then code_of c - 55
      else code_of c - 87)"

definition hex4 :: "char \<Rightarrow> char \<Rightarrow> char \<Rightarrow> char \<Rightarrow> nat option" where
  "hex4 a b c d =
     (if is_hex a \<and> is_hex b \<and> is_hex c \<and> is_hex d
      then Some (((hex_val a * 16 + hex_val b) * 16 + hex_val c) * 16 + hex_val d)
      else None)"

definition utf8_encode :: "nat \<Rightarrow> string" where
  "utf8_encode n =
     (if n < 128 then [char_of n]
      else if n < 2048 then [char_of (192 + n div 64), char_of (128 + n mod 64)]
      else if n < 65536 then
        [char_of (224 + n div 4096), char_of (128 + (n div 64) mod 64), char_of (128 + n mod 64)]
      else
        [char_of (240 + n div 262144), char_of (128 + (n div 4096) mod 64),
         char_of (128 + (n div 64) mod 64), char_of (128 + n mod 64)])"

fun encode_units :: "cunit list \<Rightarrow> string" where
  "encode_units [] = []"
| "encode_units (B c # r) = c # encode_units r"
| "encode_units (U h # U l # r) =
     (if 55296 \<le> h \<and> h < 56320 \<and> 56320 \<le> l \<and> l < 57344
      then utf8_encode (65536 + (h - 55296) * 1024 + (l - 56320)) @ encode_units r
      else utf8_encode h @ encode_units (U l # r))"
| "encode_units (U h # r) = utf8_encode h @ encode_units r"

text \<open>The character a one-letter escape stands for.\<close>

definition escape_char :: "char \<Rightarrow> char option" where
  "escape_char e =
     (if e = CHR 0x22 \<or> e = CHR 0x5C \<or> e = CHR ''/'' then Some e
      else if e = CHR ''b'' then Some (CHR 0x08)
      else if e = CHR ''f'' then Some (CHR 0x0C)
      else if e = CHR ''n'' then Some (CHR 0x0A)
      else if e = CHR ''r'' then Some (CHR 0x0D)
      else if e = CHR ''t'' then Some (CHR 0x09)
      else None)"

text \<open>
  \<open>lex_string acc cs\<close> reads a string body up to its closing quote: the units read
  (latest first) and the text after the quote. An unescaped control character, an
  unknown escape and a missing quote are errors.
\<close>

fun lex_string :: "cunit list \<Rightarrow> string \<Rightarrow> (cunit list \<times> string) option" where
  "lex_string acc [] = None"
| "lex_string acc (c # cs) =
     (if c = CHR 0x22 then Some (acc, cs)
      else if c = CHR 0x5C then
        (case cs of
           [] \<Rightarrow> None
         | e # es \<Rightarrow>
             if e = CHR ''u'' then
               (case es of
                  h1 # h2 # h3 # h4 # r \<Rightarrow>
                    (case hex4 h1 h2 h3 h4 of
                       None \<Rightarrow> None
                     | Some u \<Rightarrow> lex_string (U u # acc) r)
                | _ \<Rightarrow> None)
             else
               (case escape_char e of
                  None \<Rightarrow> None
                | Some x \<Rightarrow> lex_string (B x # acc) es))
      else if code_of c < 32 then None
      else lex_string (B c # acc) cs)"

definition is_json_ws :: "char \<Rightarrow> bool" where
  "is_json_ws c = (code_of c = 9 \<or> code_of c = 10 \<or> code_of c = 13 \<or> code_of c = 32)"

definition is_num_char :: "char \<Rightarrow> bool" where
  "is_num_char c =
     (is_digit c \<or> c = CHR ''+'' \<or> c = CHR ''-'' \<or> c = CHR ''.'' \<or> c = CHR ''e'' \<or> c = CHR ''E'')"

text \<open>The number grammar: \<^verbatim>\<open>-? (0 | [1-9][0-9]*) (\.[0-9]+)? ([eE][+-]?[0-9]+)?\<close>.\<close>

definition valid_exp :: "string \<Rightarrow> bool" where
  "valid_exp r =
     (case r of
        [] \<Rightarrow> True
      | c # r' \<Rightarrow>
          (c = CHR ''e'' \<or> c = CHR ''E'') \<and>
          (let ds = (case r' of
                       [] \<Rightarrow> []
                     | s # t \<Rightarrow> if s = CHR ''+'' \<or> s = CHR ''-'' then t else r')
           in ds \<noteq> [] \<and> list_all is_digit ds))"

definition valid_frac :: "string \<Rightarrow> bool" where
  "valid_frac r =
     (case r of
        [] \<Rightarrow> True
      | c # r' \<Rightarrow>
          if c = CHR ''.''
          then takeWhile is_digit r' \<noteq> [] \<and> valid_exp (dropWhile is_digit r')
          else valid_exp r)"

definition valid_number :: "string \<Rightarrow> bool" where
  "valid_number l =
     (let m = (case l of [] \<Rightarrow> [] | c # r \<Rightarrow> if c = CHR ''-'' then r else l);
          ip = takeWhile is_digit m
      in ip \<noteq> [] \<and> (ip = ''0'' \<or> hd ip \<noteq> CHR ''0'') \<and> valid_frac (dropWhile is_digit m))"

lemma lex_string_shorter: "lex_string acc cs = Some (us, r) \<Longrightarrow> length r < Suc (length cs)"
proof (induction acc cs rule: lex_string.induct)
  case (1 acc)
  then show ?case by simp
next
  case (2 acc c cs)
  show ?case
  proof (cases "c = CHR 0x22")
    case True
    with 2(4) show ?thesis by simp
  next
    case nq: False
    show ?thesis
    proof (cases "c = CHR 0x5C")
      case False
      with nq 2(3)[of ] 2(4) show ?thesis
        by (simp split: if_splits)
    next
      case bs: True
      show ?thesis
      proof (cases cs)
        case Nil
        with nq bs 2(4) show ?thesis by simp
      next
        case (Cons e es)
        show ?thesis
        proof (cases "e = CHR ''u''")
          case True
          with nq bs Cons 2(4) obtain h1 h2 h3 h4 rr u where
            es: "es = h1 # h2 # h3 # h4 # rr" and hx: "hex4 h1 h2 h3 h4 = Some u"
            and rec: "lex_string (U u # acc) rr = Some (us, r)"
            by (auto split: list.splits option.splits)
          have "length r < Suc (length rr)"
            using 2(1)[OF nq bs Cons True es] hx rec by blast
          with es Cons show ?thesis by simp
        next
          case False
          with nq bs Cons 2(4) obtain x where
            ex: "escape_char e = Some x" and rec: "lex_string (B x # acc) es = Some (us, r)"
            by (auto split: option.splits)
          from 2(2)[OF nq bs Cons False ex rec] Cons show ?thesis by simp
        qed
      qed
    qed
  qed
qed

function tokenize :: "string \<Rightarrow> token list option" where
  "tokenize [] = Some []"
| "tokenize (c # cs) =
     (if is_json_ws c then tokenize cs
      else if c = CHR ''{'' then map_option ((#) T_lbrace) (tokenize cs)
      else if c = CHR ''}'' then map_option ((#) T_rbrace) (tokenize cs)
      else if c = CHR ''['' then map_option ((#) T_lbrack) (tokenize cs)
      else if c = CHR '']'' then map_option ((#) T_rbrack) (tokenize cs)
      else if c = CHR '','' then map_option ((#) T_comma) (tokenize cs)
      else if c = CHR '':'' then map_option ((#) T_colon) (tokenize cs)
      else if c = CHR 0x22 then
        (case lex_string [] cs of
           None \<Rightarrow> None
         | Some (us, r) \<Rightarrow> map_option ((#) (T_str (encode_units (rev us)))) (tokenize r))
      else if c = CHR ''-'' \<or> is_digit c then
        (if valid_number (c # takeWhile is_num_char cs)
         then map_option ((#) (T_lit (JNum (c # takeWhile is_num_char cs))))
                (tokenize (dropWhile is_num_char cs))
         else None)
      else if prefix ''true'' (c # cs) then
        map_option ((#) (T_lit (JBool True))) (tokenize (drop 3 cs))
      else if prefix ''false'' (c # cs) then
        map_option ((#) (T_lit (JBool False))) (tokenize (drop 4 cs))
      else if prefix ''null'' (c # cs) then
        map_option ((#) (T_lit JNull)) (tokenize (drop 3 cs))
      else None)"
  by pat_completeness auto
termination
  apply (relation "measure length")
  apply (simp_all (no_asm) add: less_Suc_eq_le length_dropWhile_le)
  subgoal premises p for c cs x2 x y
    using lex_string_shorter [of "[]" cs x y] p(9,10) by simp
  done

text \<open>
  The parser's stack holds the containers that are open: an array with its elements
  so far, an object with its members so far and the key waiting for its value (both
  latest first). The mode says what may come next.
\<close>

datatype frame = F_arr "json list" | F_obj "(string \<times> json) list" "string option"

datatype pmode =
    P_value | P_value_or_end | P_key_or_end | P_key | P_colon | P_comma_or_end
  | P_done json

definition push_value :: "frame list \<Rightarrow> json \<Rightarrow> (frame list \<times> pmode) option" where
  "push_value st v =
     (case st of
        [] \<Rightarrow> Some ([], P_done v)
      | F_arr es # st' \<Rightarrow> Some (F_arr (v # es) # st', P_comma_or_end)
      | F_obj kvs None # st' \<Rightarrow> None
      | F_obj kvs (Some k) # st' \<Rightarrow> Some (F_obj ((k, v) # kvs) None # st', P_comma_or_end))"

definition open_value :: "frame list \<Rightarrow> token \<Rightarrow> (frame list \<times> pmode) option" where
  "open_value st t =
     (case t of
        T_lit v \<Rightarrow> push_value st v
      | T_str s \<Rightarrow> push_value st (JStr s)
      | T_lbrack \<Rightarrow> Some (F_arr [] # st, P_value_or_end)
      | T_lbrace \<Rightarrow> Some (F_obj [] None # st, P_key_or_end)
      | _ \<Rightarrow> None)"

definition close_array :: "frame list \<Rightarrow> (frame list \<times> pmode) option" where
  "close_array st =
     (case st of F_arr es # st' \<Rightarrow> push_value st' (JArr (rev es)) | _ \<Rightarrow> None)"

definition close_object :: "frame list \<Rightarrow> (frame list \<times> pmode) option" where
  "close_object st =
     (case st of F_obj kvs None # st' \<Rightarrow> push_value st' (JObj (rev kvs)) | _ \<Rightarrow> None)"

definition take_key :: "frame list \<Rightarrow> token \<Rightarrow> (frame list \<times> pmode) option" where
  "take_key st t =
     (case t of
        T_str k \<Rightarrow>
          (case st of F_obj kvs None # st' \<Rightarrow> Some (F_obj kvs (Some k) # st', P_colon) | _ \<Rightarrow> None)
      | _ \<Rightarrow> None)"

definition pstep :: "frame list \<times> pmode \<Rightarrow> token \<Rightarrow> (frame list \<times> pmode) option" where
  "pstep s t =
     (case s of (st, m) \<Rightarrow>
        (case m of
           P_value \<Rightarrow> open_value st t
         | P_value_or_end \<Rightarrow> if t = T_rbrack then close_array st else open_value st t
         | P_key_or_end \<Rightarrow> if t = T_rbrace then close_object st else take_key st t
         | P_key \<Rightarrow> take_key st t
         | P_colon \<Rightarrow> if t = T_colon then Some (st, P_value) else None
         | P_comma_or_end \<Rightarrow>
             if t = T_comma then
               (case st of
                  [] \<Rightarrow> None
                | F_arr es # st' \<Rightarrow> Some (st, P_value)
                | F_obj kvs k # st' \<Rightarrow> Some (st, P_key))
             else if t = T_rbrack then close_array st
             else if t = T_rbrace then close_object st
             else None
         | P_done v \<Rightarrow> None))"

fun psteps :: "frame list \<times> pmode \<Rightarrow> token list \<Rightarrow> (frame list \<times> pmode) option" where
  "psteps s [] = Some s"
| "psteps s (t # ts) = (case pstep s t of None \<Rightarrow> None | Some s' \<Rightarrow> psteps s' ts)"

definition JSON_parse :: "string \<Rightarrow> json option" where
  "JSON_parse s =
     (case tokenize s of
        None \<Rightarrow> None
      | Some ts \<Rightarrow>
          (case psteps ([], P_value) ts of
             Some ([], P_done v) \<Rightarrow> Some v
           | _ \<Rightarrow> None))"

section \<open>The primary adapter: \<^verbatim>\<open>callV0API\<close>\<close>

text \<open>
  \<^verbatim>\<open>getFileType\<close>: the text after the last dot of the file name (the whole name when
  it has no dot), in lower case, looked up in \<^verbatim>\<open>typeMap\<close>, \<^verbatim>\<open>text/plain\<close> when it
  is not there. \<^verbatim>\<open>typeMap\<close> is read as its own eight entries: the two names
  \<^verbatim>\<open>constructor\<close> and \<^verbatim>\<open>__proto__\<close>, which JavaScript finds on the prototype of
  the object literal, are not modelled. Only ASCII letters are lowered; no other
  letter lowers to a key of the table.
\<close>

definition to_lower :: "char \<Rightarrow> char" where
  "to_lower c = (if 65 \<le> code_of c \<and> code_of c \<le> 90 then char_of (code_of c + 32) else c)"

definition last_segment :: "string \<Rightarrow> string" where
  "last_segment s = rev (takeWhile (\<lambda>c. c \<noteq> CHR ''.'') (rev s))"

definition typeMap :: "(string \<times> string) list" where
  "typeMap =
     [(''tsx'', ''text/tsx''),
      (''ts'', ''text/typescript''),
      (''jsx'', ''text/jsx''),
      (''js'', ''text/javascript''),
      (''css'', ''text/css''),
      (''html'', ''text/html''),
      (''json'', ''application/json''),
      (''md'', ''text/markdown'')]"

definition getFileType :: "string \<Rightarrow> string" where
  "getFileType filename =
     (case map_of typeMap (map to_lower (last_segment filename)) of
        None \<Rightarrow> ''text/plain''
      | Some t \<Rightarrow> t)"

text \<open>
  What \<^verbatim>\<open>fetch\<close> does in a run: it throws, or it answers with a status and a body.
  \<^verbatim>\<open>response.ok\<close> is a status from 200 to 299.
\<close>

datatype fetch_outcome = Fetch_throws string | Fetch_response nat string

definition response_ok :: "nat \<Rightarrow> bool" where
  "response_ok status = (200 \<le> status \<and> status \<le> 299)"

fun show_nat :: "nat \<Rightarrow> string" where
  "show_nat n =
     (if n < 10 then [char_of (48 + n)] else show_nat (n div 10) @ [char_of (48 + n mod 10)])"

text \<open>
  One step of \<^verbatim>\<open>result.files.map(...)\<close>: \<^verbatim>\<open>file.name\<close> throws on a \<^verbatim>\<open>null\<close>
  element, \<^verbatim>\<open>filename.split\<close> throws unless the name is a string. A property whose
  value is \<^verbatim>\<open>undefined\<close> is left out of the object built.
\<close>

definition transform_file :: "json \<Rightarrow> exn + json" where
  "transform_file file =
     (case js_get file ''name'' of
        Inl e \<Rightarrow> Inl e
      | Inr name \<Rightarrow>
          (case js_get file ''content'' of
             Inl e \<Rightarrow> Inl e
           | Inr content \<Rightarrow>
               (case name of
                  Some (JStr filename) \<Rightarrow>
                    Inr (JObj ([(''name'', JStr filename)]
                               @ (case content of None \<Rightarrow> [] | Some c \<Rightarrow> [(''content'', c)])
                               @ [(''type'', JStr (getFileType filename))]))
                | _ \<Rightarrow> Inl (Exn ''filename.split is not a function''))))"

fun transform_files :: "json list \<Rightarrow> exn + json list" where
  "transform_files [] = Inr []"
| "transform_files (f # fs) =
     (case transform_file f of
        Inl e \<Rightarrow> Inl e
      | Inr g \<Rightarrow> (case transform_files fs of Inl e \<Rightarrow> Inl e | Inr gs \<Rightarrow> Inr (g # gs)))"

text \<open>
  The transformation of the v0 response: \<^verbatim>\<open>result.files?.map(...) || []\<close> is the
  mapped array, the empty array when \<^verbatim>\<open>files\<close> is absent or \<^verbatim>\<open>null\<close>, and a
  TypeError when \<^verbatim>\<open>files\<close> is anything else (it has no \<^verbatim>\<open>map\<close> method).
\<close>

definition transform_result :: "json \<Rightarrow> exn + json" where
  "transform_result result =
     (case js_get result ''files'' of
        Inl e \<Rightarrow> Inl e
      | Inr fv \<Rightarrow>
          (case (case fv of
                   None \<Rightarrow> Inr []
                 | Some JNull \<Rightarrow> Inr []
                 | Some (JArr fs) \<Rightarrow> transform_files fs
                 | Some _ \<Rightarrow> Inl (Exn ''result.files?.map is not a function'')) of
             Inl e \<Rightarrow> Inl e
           | Inr files \<Rightarrow>
               (case js_get result ''description'' of
                  Inl e \<Rightarrow> Inl e
                | Inr d \<Rightarrow>
                    (case js_get result ''instructions'' of
                       Inl e \<Rightarrow> Inl e
                     | Inr i \<Rightarrow>
                         Inr (JObj
                           [(''files'', JArr files),
                            (''description'', js_or d (JStr ''Generated with v0'')),
                            (''instructions'', js_or i (JStr ''Standard React component setup''))])))))"

text \<open>
  \<^verbatim>\<open>response.text()\<close> and \<^verbatim>\<open>response.json()\<close> decode the body as UTF-8 and drop
  a leading byte order mark. The body is taken to be valid UTF-8.
\<close>

definition strip_bom :: "string \<Rightarrow> string" where
  "strip_bom body =
     (if prefix [CHR 0xEF, CHR 0xBB, CHR 0xBF] body then drop 3 body else body)"

text \<open>
  \<^verbatim>\<open>callV0API\<close>, given the configured key and what \<^verbatim>\<open>fetch\<close> does. The prompt, type
  and framework go into the request body only. The \<^verbatim>\<open>catch\<close> logs and rethrows, so
  every error leaves the function as it is. There is one \<^verbatim>\<open>fetch\<close> call and no loop.
\<close>

definition callV0API :: "string option \<Rightarrow> fetch_outcome \<Rightarrow> exn + json" where
  "callV0API V0_API_KEY fetched =
     (if V0_API_KEY = None \<or> V0_API_KEY = Some [] then Inl (Exn ''v0 API key not configured'')
      else
        (case fetched of
           Fetch_throws m \<Rightarrow> Inl (Exn m)
         | Fetch_response status body \<Rightarrow>
             if \<not> response_ok status
             then Inl (Exn (''v0 API error: '' @ show_nat status @ '' '' @ strip_bom body))
             else
               (case JSON_parse (strip_bom body) of
                  None \<Rightarrow> Inl (Exn ''Unexpected token in JSON'')
                | Some result \<Rightarrow> transform_result result)))"

section \<open>The fallback adapter: \<^verbatim>\<open>generateCode\<close>\<close>

text \<open>
  The white space \<^verbatim>\<open>\s\<close> of a JavaScript regular expression, in UTF-8: tab, line
  feed, vertical tab, form feed, carriage return, space, U+00A0, U+1680, U+2000 to
  U+200A, U+2028, U+2029, U+202F, U+205F, U+3000 and U+FEFF.
\<close>

definition ws1 :: "nat \<Rightarrow> bool" where
  "ws1 c = ((9 \<le> c \<and> c \<le> 13) \<or> c = 32)"

definition ws3 :: "nat \<Rightarrow> nat \<Rightarrow> nat \<Rightarrow> bool" where
  "ws3 c d e =
     ((c = 225 \<and> d = 154 \<and> e = 128) \<or>
      (c = 226 \<and> d = 128 \<and> ((128 \<le> e \<and> e \<le> 138) \<or> e = 168 \<or> e = 169 \<or> e = 175)) \<or>
      (c = 226 \<and> d = 129 \<and> e = 159) \<or>
      (c = 227 \<and> d = 128 \<and> e = 128) \<or>
      (c = 239 \<and> d = 187 \<and> e = 191))"

text \<open>\<open>skip_ws\<close> is a greedy \<^verbatim>\<open>\s*\<close>: the text after its leading white space.\<close>

fun skip_ws :: "string \<Rightarrow> string" where
  "skip_ws [] = []"
| "skip_ws (c # cs) =
     (if ws1 (code_of c) then skip_ws cs
      else
        (case cs of
           [] \<Rightarrow> c # cs
         | d # r \<Rightarrow>
             if code_of c = 194 \<and> code_of d = 160 then skip_ws r
             else
               (case r of
                  [] \<Rightarrow> c # cs
                | e # r' \<Rightarrow> if ws3 (code_of c) (code_of d) (code_of e) then skip_ws r' else c # cs)))"

definition fence :: string where
  "fence = [CHR 0x60, CHR 0x60, CHR 0x60]"

text \<open>The text from the first occurrence of a pattern on.\<close>

fun find_from :: "string \<Rightarrow> string \<Rightarrow> string option" where
  "find_from pat [] = (if pat = [] then Some [] else None)"
| "find_from pat (c # cs) = (if prefix pat (c # cs) then Some (c # cs) else find_from pat cs)"

text \<open>
  The lazy group \<^verbatim>\<open>([\s\S]*?)\<close> followed by \<^verbatim>\<open>\s*```\<close>: the shortest text after
  which white space and the closing fence follow. The result is the group and the
  text after the closing fence.
\<close>

fun lazy_group :: "string \<Rightarrow> string \<Rightarrow> (string \<times> string) option" where
  "lazy_group acc [] = None"
| "lazy_group acc (c # cs) =
     (if prefix fence (skip_ws (c # cs)) then Some (rev acc, drop 3 (skip_ws (c # cs)))
      else lazy_group (c # acc) cs)"

text \<open>
  \<^verbatim>\<open>aiText.match(/```json\s*([\s\S]*?)\s*```/)\<close>: the whole match and group 1, at
  the first \<^verbatim>\<open>```json\<close> (when that one has no closing fence, no later one has).
\<close>

definition match_fenced :: "string \<Rightarrow> (string \<times> string) option" where
  "match_fenced s =
     (case find_from (fence @ ''json'') s of
        None \<Rightarrow> None
      | Some m \<Rightarrow>
          (case lazy_group [] (skip_ws (drop 7 m)) of
             None \<Rightarrow> None
           | Some (g, rest) \<Rightarrow> Some (take (length m - length rest) m, g)))"

text \<open>
  \<^verbatim>\<open>aiText.match(/\{[\s\S]*\}/)\<close>: from the first opening brace to the last closing
  brace after it.
\<close>

definition match_braces :: "string \<Rightarrow> string option" where
  "match_braces s =
     (case dropWhile (\<lambda>c. c \<noteq> CHR ''{'') s of
        [] \<Rightarrow> None
      | b # body \<Rightarrow>
          if CHR ''}'' \<in> set body
          then Some (b # rev (dropWhile (\<lambda>c. c \<noteq> CHR ''}'') (rev body)))
          else None)"

text \<open>
  \<^verbatim>\<open>jsonMatch[1] || jsonMatch[0]\<close> for \<^verbatim>\<open>jsonMatch\<close> the first pattern's match or
  else the second's: an empty group 1 is falsy, and the second pattern has no group.
\<close>

definition extract_json :: "string \<Rightarrow> string option" where
  "extract_json aiText =
     (case match_fenced aiText of
        Some (whole, g) \<Rightarrow> Some (if g \<noteq> [] then g else whole)
      | None \<Rightarrow> match_braces aiText)"

definition generateFallbackCode :: "string \<Rightarrow> string \<Rightarrow> string \<Rightarrow> string" where
  "generateFallbackCode prompt type framework =
     join_with nl
       [''// Generated component based on: '' @ prompt,
        ''import React from '' @ sq @ ''react'' @ sq,
        [],
        ''interface Props {'',
        ''  // Add your props here'',
        ''}'',
        [],
        ''export default function GeneratedComponent(props: Props) {'',
        ''  return ('',
        ''    <div className='' @ dq @ ''p-4'' @ dq @ ''>'',
        ''      <h1 className='' @ dq @ ''text-2xl font-bold text-gray-900'' @ dq @ ''>'',
        ''        Generated Component'',
        ''      </h1>'',
        ''      <p className='' @ dq @ ''mt-2 text-gray-600'' @ dq @ ''>'',
        ''        This component was generated based on your prompt: '' @ dq @ prompt @ dq,
        ''      </p>'',
        ''      <div className='' @ dq @ ''mt-4 p-4 bg-blue-50 rounded-lg'' @ dq @ ''>'',
        ''        <p className='' @ dq @ ''text-sm text-blue-600'' @ dq @ ''>'',
        ''          Type: {type} | Framework: {framework}'',
        ''        </p>'',
        ''      </div>'',
        ''    </div>'',
        ''  )'',
        ''}'']"

text \<open>The structure \<^verbatim>\<open>generateCode\<close> builds when neither pattern matches.\<close>

definition synthesized :: "string \<Rightarrow> string \<Rightarrow> string \<Rightarrow> json" where
  "synthesized prompt type framework =
     JObj
       [(''files'',
         JArr [JObj [(''name'', JStr ''component.tsx''),
                     (''content'', JStr (generateFallbackCode prompt type framework)),
                     (''type'', JStr ''text/tsx'')]]),
        (''description'', JStr ''Basic component generated''),
        (''instructions'', JStr ''Install dependencies and run the development server'')]"

text \<open>
  What \<^verbatim>\<open>env.AI.run\<close> does in a run: it throws, or it answers with an object whose
  \<^verbatim>\<open>response\<close> is a string or is missing.
\<close>

datatype ai_outcome = AI_throws string | AI_response "string option"

text \<open>
  \<^verbatim>\<open>generateCode\<close>. Everything is inside one \<^verbatim>\<open>try\<close>, whose \<^verbatim>\<open>catch\<close> replaces
  any error (of the model call, of \<^verbatim>\<open>aiText.match\<close> on a missing text, of
  \<^verbatim>\<open>JSON.parse\<close>) by \<^verbatim>\<open>AI code generation failed\<close>.
\<close>

definition generateCode :: "string \<Rightarrow> string \<Rightarrow> string \<Rightarrow> ai_outcome \<Rightarrow> exn + json" where
  "generateCode prompt type framework ai =
     (case ai of
        AI_throws m \<Rightarrow> Inl (Exn ''AI code generation failed'')
      | AI_response None \<Rightarrow> Inl (Exn ''AI code generation failed'')
      | AI_response (Some aiText) \<Rightarrow>
          (case extract_json aiText of
             Some txt \<Rightarrow>
               (case JSON_parse txt of
                  None \<Rightarrow> Inl (Exn ''AI code generation failed'')
                | Some v \<Rightarrow> Inr v)
           | None \<Rightarrow> Inr (synthesized prompt type framework)))"

section \<open>The generation route: \<^verbatim>\<open>POST /generation/generate\<close>\<close>

text \<open>
  The validated request body: \<^verbatim>\<open>generateSchema\<close> has accepted it before the handler
  runs.
\<close>

datatype gen_type = Component | Page | Api | Fullstack

datatype gen_framework = React | Vue | Svelte | Nextjs

fun type_name :: "gen_type \<Rightarrow> string" where
  "type_name Component = ''component''"
| "type_name Page = ''page''"
| "type_name Api = ''api''"
| "type_name Fullstack = ''fullstack''"

fun framework_name :: "gen_framework \<Rightarrow> string" where
  "framework_name React = ''react''"
| "framework_name Vue = ''vue''"
| "framework_name Svelte = ''svelte''"
| "framework_name Nextjs = ''nextjs''"

record gen_request =
  req_prompt :: string
  req_type :: gen_type
  req_framework :: "gen_framework option"
  req_projectId :: "string option"

text \<open>The destructuring default \<^verbatim>\<open>framework = 'react'\<close>.\<close>

definition framework_of :: "gen_request \<Rightarrow> gen_framework" where
  "framework_of req = (case req_framework req of None \<Rightarrow> React | Some f \<Rightarrow> f)"

text \<open>
  The stores. Of a \<^verbatim>\<open>users\<close> row the workflow reads and writes the two counters
  (whole numbers: the columns are \<^verbatim>\<open>INTEGER\<close> with defaults 0 and 3). A
  \<^verbatim>\<open>generations\<close> row has the columns of the migration; the columns \<^verbatim>\<open>result\<close> and
  \<^verbatim>\<open>files\<close> hold \<^verbatim>\<open>JSON.stringify\<close> of a value and are modelled by that value. A
  blob is what \<^verbatim>\<open>STORAGE.put\<close> received: the value and the content type.
\<close>

record user_row =
  generations_used :: int
  generations_limit :: int

record file_url =
  fu_name :: "json option"
  fu_url :: string
  fu_type :: "json option"

record generation_row =
  g_user_id :: string
  g_project_id :: "string option"
  g_prompt :: string
  g_type :: string
  g_framework :: string
  g_status :: string
  g_result :: "json option"
  g_files :: "file_url list option"
  g_error :: "string option"
  g_created_at :: string
  g_completed_at :: "string option"

record blob =
  b_value :: "json option"
  b_contentType :: json

text \<open>
  The log lists, in order, what a run did to the outside: the rows it wrote, the blobs
  it put and the adapters it called.
\<close>

datatype event =
    Ev_insert string
  | Ev_call_v0
  | Ev_call_ai
  | Ev_put string "json option" json
  | Ev_completed string
  | Ev_increment string
  | Ev_failed string

record world =
  users :: "string \<rightharpoonup> user_row"
  generations :: "string \<rightharpoonup> generation_row"
  storage :: "string \<rightharpoonup> blob"
  log :: "event list"

text \<open>
  What the outside does in one run: the configured key, the answers of the two
  services, for each database statement the error it throws if it throws, for the
  \<open>i\<close>-th \<^verbatim>\<open>STORAGE.put\<close> likewise, and the two readings of the clock.
\<close>

record run_env =
  V0_API_KEY :: "string option"
  fetch_v0 :: fetch_outcome
  ai_run :: ai_outcome
  select_error :: "string option"
  insert_error :: "string option"
  put_error :: "nat \<Rightarrow> string option"
  complete_error :: "string option"
  increment_error :: "string option"
  fail_error :: "string option"
  now_created :: string
  now_completed :: string

datatype response =
    Resp_generated string json "file_url list" string
  | Resp_error nat string

definition add_event :: "event \<Rightarrow> world \<Rightarrow> world" where
  "add_event e w = w\<lparr>log := log w @ [e]\<rparr>"

text \<open>
  The quota read: \<^verbatim>\<open>SELECT generations_used, generations_limit FROM users WHERE id = ?\<close>
  and \<^verbatim>\<open>.first()\<close>. When there is no such row, \<^verbatim>\<open>user\<close> is \<^verbatim>\<open>null\<close> and reading
  \<^verbatim>\<open>user.generations_used\<close> throws.
\<close>

definition select_user :: "run_env \<Rightarrow> string \<Rightarrow> world \<Rightarrow> exn + user_row" where
  "select_user env userId w =
     (case select_error env of
        Some m \<Rightarrow> Inl (Exn m)
      | None \<Rightarrow>
          (case users w userId of
             None \<Rightarrow>
               Inl (Exn (''Cannot read properties of null (reading ''
                         @ sq @ ''generations_used'' @ sq @ '')''))
           | Some u \<Rightarrow> Inr u))"

definition quota_reached :: "user_row \<Rightarrow> bool" where
  "quota_reached user = (generations_used user \<ge> generations_limit user)"

text \<open>
  The ledger insert, with status \<^verbatim>\<open>processing\<close>. \<^verbatim>\<open>id\<close> is the primary key: the
  statement fails on an identifier that is already there.
\<close>

definition new_row :: "run_env \<Rightarrow> string \<Rightarrow> gen_request \<Rightarrow> generation_row" where
  "new_row env userId req =
     \<lparr>g_user_id = userId,
      g_project_id = req_projectId req,
      g_prompt = req_prompt req,
      g_type = type_name (req_type req),
      g_framework = framework_name (framework_of req),
      g_status = ''processing'',
      g_result = None,
      g_files = None,
      g_error = None,
      g_created_at = now_created env,
      g_completed_at = None\<rparr>"

definition insert_generation ::
  "run_env \<Rightarrow> string \<Rightarrow> string \<Rightarrow> gen_request \<Rightarrow> world \<Rightarrow> exn + world" where
  "insert_generation env userId generationId req w =
     (case insert_error env of
        Some m \<Rightarrow> Inl (Exn m)
      | None \<Rightarrow>
          if generations w generationId \<noteq> None
          then Inl (Exn ''UNIQUE constraint failed: generations.id'')
          else Inr (add_event (Ev_insert generationId)
                     (w\<lparr>generations := (generations w)(generationId \<mapsto> new_row env userId req)\<rparr>)))"

text \<open>
  The provider stage: \<^verbatim>\<open>callV0API\<close> once, and in its \<^verbatim>\<open>catch\<close> \<^verbatim>\<open>generateCode\<close>
  once. An error of \<^verbatim>\<open>generateCode\<close> is not caught here.
\<close>

definition run_providers :: "run_env \<Rightarrow> gen_request \<Rightarrow> world \<Rightarrow> world \<times> (exn + json)" where
  "run_providers env req w =
     (let w1 = add_event Ev_call_v0 w in
      case callV0API (V0_API_KEY env) (fetch_v0 env) of
        Inr generatedCode \<Rightarrow> (w1, Inr generatedCode)
      | Inl v0Error \<Rightarrow>
          (add_event Ev_call_ai w1,
           generateCode (req_prompt req) (type_name (req_type req))
             (framework_name (framework_of req)) (ai_run env)))"

text \<open>The storage key, the public URL and the descriptor of a file with a given name.\<close>

definition file_key :: "string \<Rightarrow> json option \<Rightarrow> string" where
  "file_key generationId name = ''generations/'' @ generationId @ ''/'' @ js_template name"

definition public_url :: "string \<Rightarrow> string" where
  "public_url fileKey = ''https://storage.thisaicodes.com/'' @ fileKey"

text \<open>
  A property read on a loop element after \<^verbatim>\<open>file.name\<close> has been read without an
  error: it cannot throw any more.
\<close>

definition file_prop :: "json \<Rightarrow> string \<Rightarrow> json option" where
  "file_prop file k = (case js_get file k of Inl e \<Rightarrow> None | Inr v \<Rightarrow> v)"

text \<open>
  The loop over the files, from the \<open>i\<close>-th on, with the descriptors pushed so far.
  Reading \<^verbatim>\<open>file.name\<close> throws on a \<^verbatim>\<open>null\<close> element; a \<^verbatim>\<open>put\<close> that throws
  ends the loop.
\<close>

fun store_files ::
  "run_env \<Rightarrow> string \<Rightarrow> nat \<Rightarrow> json list \<Rightarrow> file_url list \<Rightarrow> world \<Rightarrow> world \<times> (exn + file_url list)"
where
  "store_files env generationId i [] fileUrls w = (w, Inr fileUrls)"
| "store_files env generationId i (file # files) fileUrls w =
     (case js_get file ''name'' of
        Inl e \<Rightarrow> (w, Inl e)
      | Inr name \<Rightarrow>
          (let fileKey = file_key generationId name;
               contentType = js_or (file_prop file ''type'') (JStr ''text/plain'')
           in case put_error env i of
                Some m \<Rightarrow> (w, Inl (Exn m))
              | None \<Rightarrow>
                  store_files env generationId (Suc i) files
                    (fileUrls @ [\<lparr>fu_name = name, fu_url = public_url fileKey,
                                  fu_type = file_prop file ''type''\<rparr>])
                    (add_event (Ev_put fileKey (file_prop file ''content'') contentType)
                       (w\<lparr>storage := (storage w)(fileKey \<mapsto>
                            \<lparr>b_value = file_prop file ''content'',
                             b_contentType = contentType\<rparr>)\<rparr>))))"

text \<open>
  \<^verbatim>\<open>UPDATE generations SET status = 'completed', result = ?, files = ?, completed_at = ?
  WHERE id = ?\<close>. A statement on an identifier that has no row changes nothing.
\<close>

definition complete_generation ::
  "run_env \<Rightarrow> string \<Rightarrow> json \<Rightarrow> file_url list \<Rightarrow> world \<Rightarrow> exn + world" where
  "complete_generation env generationId generatedCode fileUrls w =
     (case complete_error env of
        Some m \<Rightarrow> Inl (Exn m)
      | None \<Rightarrow>
          (case generations w generationId of
             None \<Rightarrow> Inr w
           | Some row \<Rightarrow>
               Inr (add_event (Ev_completed generationId)
                     (w\<lparr>generations := (generations w)(generationId \<mapsto>
                          row\<lparr>g_status := ''completed'',
                              g_result := Some generatedCode,
                              g_files := Some fileUrls,
                              g_completed_at := Some (now_completed env)\<rparr>)\<rparr>))))"

text \<open>\<^verbatim>\<open>UPDATE users SET generations_used = generations_used + 1 WHERE id = ?\<close>.\<close>

definition increment_usage :: "run_env \<Rightarrow> string \<Rightarrow> world \<Rightarrow> exn + world" where
  "increment_usage env userId w =
     (case increment_error env of
        Some m \<Rightarrow> Inl (Exn m)
      | None \<Rightarrow>
          (case users w userId of
             None \<Rightarrow> Inr w
           | Some u \<Rightarrow>
               Inr (add_event (Ev_increment userId)
                     (w\<lparr>users := (users w)(userId \<mapsto>
                          u\<lparr>generations_used := generations_used u + 1\<rparr>)\<rparr>))))"

text \<open>
  The part of the \<^verbatim>\<open>try\<close> block after the providers: \<^verbatim>\<open>generatedCode.files || []\<close>,
  the loop, the completed update, the usage increment (a statement of its own), the
  answer.
\<close>

definition store_and_finalize ::
  "run_env \<Rightarrow> string \<Rightarrow> string \<Rightarrow> json \<Rightarrow> world \<Rightarrow> world \<times> (exn + response)" where
  "store_and_finalize env userId generationId generatedCode w1 =
     (case js_get generatedCode ''files'' of
        Inl e \<Rightarrow> (w1, Inl e)
      | Inr fv \<Rightarrow>
          (case js_iterate (js_or fv (JArr [])) of
             Inl e \<Rightarrow> (w1, Inl e)
           | Inr files \<Rightarrow>
               (case store_files env generationId 0 files [] w1 of
                  (w2, Inl e) \<Rightarrow> (w2, Inl e)
                | (w2, Inr fileUrls) \<Rightarrow>
                    (case complete_generation env generationId generatedCode fileUrls w2 of
                       Inl e \<Rightarrow> (w2, Inl e)
                     | Inr w3 \<Rightarrow>
                         (case increment_usage env userId w3 of
                            Inl e \<Rightarrow> (w3, Inl e)
                          | Inr w4 \<Rightarrow>
                              (w4, Inr (Resp_generated generationId generatedCode fileUrls
                                          ''Code generated successfully'')))))))"

text \<open>The part of the \<^verbatim>\<open>try\<close> block after the ledger insert.\<close>

definition after_insert ::
  "run_env \<Rightarrow> string \<Rightarrow> string \<Rightarrow> gen_request \<Rightarrow> world \<Rightarrow> world \<times> (exn + response)" where
  "after_insert env userId generationId req w =
     (case run_providers env req w of
        (w1, Inl e) \<Rightarrow> (w1, Inl e)
      | (w1, Inr generatedCode) \<Rightarrow> store_and_finalize env userId generationId generatedCode w1)"

text \<open>The \<^verbatim>\<open>try\<close> block: the quota gate, the ledger insert, and the rest.\<close>

definition generate_try ::
  "run_env \<Rightarrow> string \<Rightarrow> string \<Rightarrow> gen_request \<Rightarrow> world \<Rightarrow> world \<times> (exn + response)" where
  "generate_try env userId generationId req w =
     (case select_user env userId w of
        Inl e \<Rightarrow> (w, Inl e)
      | Inr user \<Rightarrow>
          if quota_reached user
          then (w, Inr (Resp_error 429 ''Generation limit reached. Upgrade your plan to continue.''))
          else
            (case insert_generation env userId generationId req w of
               Inl e \<Rightarrow> (w, Inl e)
             | Inr w1 \<Rightarrow> after_insert env userId generationId req w1))"

text \<open>
  The \<^verbatim>\<open>catch\<close> block: \<^verbatim>\<open>UPDATE generations SET status = "failed", error = ? WHERE id = ?\<close>
  with the message of the error caught, then the answer 500. When this statement
  throws, the error leaves the handler.
\<close>

definition mark_failed :: "run_env \<Rightarrow> string \<Rightarrow> string \<Rightarrow> world \<Rightarrow> exn + world" where
  "mark_failed env generationId message w =
     (case fail_error env of
        Some m \<Rightarrow> Inl (Exn m)
      | None \<Rightarrow>
          (case generations w generationId of
             None \<Rightarrow> Inr w
           | Some row \<Rightarrow>
               Inr (add_event (Ev_failed generationId)
                     (w\<lparr>generations := (generations w)(generationId \<mapsto>
                          row\<lparr>g_status := ''failed'', g_error := Some message\<rparr>)\<rparr>))))"

text \<open>
  The handler. The source uses \<^verbatim>\<open>generationId\<close> without declaring it (the spec calls
  it a generated identifier): it is an input here, as \<^verbatim>\<open>userId\<close>, which the
  authentication middleware sets.
\<close>

definition generate_handler ::
  "run_env \<Rightarrow> string \<Rightarrow> string \<Rightarrow> gen_request \<Rightarrow> world \<Rightarrow> world \<times> (exn + response)" where
  "generate_handler env userId generationId req w =
     (case generate_try env userId generationId req w of
        (w1, Inr resp) \<Rightarrow> (w1, Inr resp)
      | (w1, Inl (Exn message)) \<Rightarrow>
          (case mark_failed env generationId message w1 of
             Inl e \<Rightarrow> (w1, Inl e)
           | Inr w2 \<Rightarrow> (w2, Inr (Resp_error 500 ''Code generation failed''))))"

section \<open>The history route: \<^verbatim>\<open>GET /generation/history\<close>\<close>

text \<open>
  \<^verbatim>\<open>parseInt\<close> without a radix: leading white space is skipped, a sign is read, a
  prefix \<^verbatim>\<open>0x\<close> or \<^verbatim>\<open>0X\<close> selects base 16, and the longest run of digits of the
  base is the value; with no digit the result is \<^verbatim>\<open>NaN\<close>, here \<open>None\<close>. The value is
  exact (JavaScript rounds beyond \<open>2^53\<close>).
\<close>

definition is_hex_prefix :: "string \<Rightarrow> bool" where
  "is_hex_prefix s = (prefix ''0x'' s \<or> prefix ''0X'' s)"

definition digits_value :: "nat \<Rightarrow> string \<Rightarrow> int" where
  "digits_value base ds = foldl (\<lambda>acc c. acc * int base + int (hex_val c)) 0 ds"

definition parseInt :: "string \<Rightarrow> int option" where
  "parseInt input =
     (let s = skip_ws input;
          neg = (case s of [] \<Rightarrow> False | c # r \<Rightarrow> c = CHR ''-'');
          s1 = (case s of [] \<Rightarrow> [] | c # r \<Rightarrow> if c = CHR ''-'' \<or> c = CHR ''+'' then r else s);
          base = (if is_hex_prefix s1 then 16 else 10);
          s2 = (if is_hex_prefix s1 then drop 2 s1 else s1);
          ds = takeWhile (if base = 16 then is_hex else is_digit) s2
      in if ds = [] then None
         else Some ((if neg then - 1 else 1) * digits_value base ds))"

text \<open>Query parameters: \<^verbatim>\<open>c.req.query(k)\<close> is \<^verbatim>\<open>undefined\<close> for an absent one.\<close>

definition query_or :: "string option \<Rightarrow> string \<Rightarrow> string" where
  "query_or q d = (case q of None \<Rightarrow> d | Some s \<Rightarrow> if s = [] then d else s)"

text \<open>\<^verbatim>\<open>Math.min(parseInt(c.req.query('limit') || '10'), 50)\<close>; \<^verbatim>\<open>NaN\<close> stays \<^verbatim>\<open>NaN\<close>.\<close>

definition history_limit :: "string option \<Rightarrow> int option" where
  "history_limit q = map_option (\<lambda>n. min n 50) (parseInt (query_or q ''10''))"

definition history_page :: "string option \<Rightarrow> int option" where
  "history_page q = parseInt (query_or q ''1'')"

text \<open>\<^verbatim>\<open>(page - 1) * limit\<close>, \<^verbatim>\<open>NaN\<close> when either is.\<close>

definition history_offset :: "string option \<Rightarrow> string option \<Rightarrow> int option" where
  "history_offset qpage qlimit =
     (case (history_page qpage, history_limit qlimit) of
        (Some page, Some limit) \<Rightarrow> Some ((page - 1) * limit)
      | _ \<Rightarrow> None)"

text \<open>
  The statement of the route is \<^verbatim>\<open>SELECT ... WHERE user_id = ? ORDER BY created_at DESC
  LIMIT ? OFFSET ?\<close>, bound to \<^verbatim>\<open>limit\<close> and \<^verbatim>\<open>offset\<close>. In SQLite, the engine of
  D1, a negative \<^verbatim>\<open>LIMIT\<close> means no upper bound on the number of rows, and a negative
  \<^verbatim>\<open>OFFSET\<close> means no offset. \<open>rows\<close> are the caller's generations, newest first.
\<close>

definition sql_limit_offset :: "int \<Rightarrow> int \<Rightarrow> 'a list \<Rightarrow> 'a list" where
  "sql_limit_offset limit offset rows =
     (let rest = drop (nat offset) rows
      in if limit < 0 then rest else take (nat limit) rest)"

text \<open>
  The rows of the answer, \<^verbatim>\<open>generations.results\<close>. When \<^verbatim>\<open>limit\<close> or \<^verbatim>\<open>offset\<close> is
  \<^verbatim>\<open>NaN\<close> the source does not determine them: \<open>None\<close>.
\<close>

definition history_results :: "string option \<Rightarrow> string option \<Rightarrow> 'a list \<Rightarrow> 'a list option" where
  "history_results qpage qlimit rows =
     (case (history_limit qlimit, history_offset qpage qlimit) of
        (Some limit, Some offset) \<Rightarrow> Some (sql_limit_offset limit offset rows)
      | _ \<Rightarrow> None)"

section \<open>Reading a run\<close>

text \<open>The events a run appended to the log.\<close>

definition run_events :: "world \<Rightarrow> world \<Rightarrow> event list" where
  "run_events w w' = drop (length (log w)) (log w')"

text \<open>The statuses written to the row of a request, in order.\<close>

fun status_writes :: "string \<Rightarrow> event list \<Rightarrow> string list" where
  "status_writes g [] = []"
| "status_writes g (e # es) =
     (if e = Ev_insert g then ''processing'' # status_writes g es
      else if e = Ev_completed g then ''completed'' # status_writes g es
      else if e = Ev_failed g then ''failed'' # status_writes g es
      else status_writes g es)"

text \<open>The contiguous pieces of a text, and whether one of them parses to an object.\<close>

definition pieces :: "string \<Rightarrow> string list" where
  "pieces s = concat (map prefixes (suffixes s))"

definition is_object :: "json option \<Rightarrow> bool" where
  "is_object v = (case v of Some (JObj kvs) \<Rightarrow> True | _ \<Rightarrow> False)"

definition contains_json_object :: "string \<Rightarrow> bool" where
  "contains_json_object raw = list_ex (\<lambda>s. is_object (JSON_parse s)) (pieces raw)"

text \<open>The descriptor the loop pushes for a file, and the event of its \<^verbatim>\<open>put\<close>.\<close>

definition descriptor :: "string \<Rightarrow> json \<Rightarrow> file_url" where
  "descriptor g file =
     \<lparr>fu_name = file_prop file ''name'',
      fu_url = public_url (file_key g (file_prop file ''name'')),
      fu_type = file_prop file ''type''\<rparr>"

definition put_event :: "string \<Rightarrow> json \<Rightarrow> event" where
  "put_event g file =
     Ev_put (file_key g (file_prop file ''name'')) (file_prop file ''content'')
       (js_or (file_prop file ''type'') (JStr ''text/plain''))"


text \<open>
  Texts of a response: a text of white space only (\<^verbatim>\<open>\s*\<close> takes all of it), an
  ASCII character that is not white space, a text with a \<^verbatim>\<open>```json\<close> followed
  somewhere by a closing fence, and a text with a \<^verbatim>\<open>{\<close> followed somewhere by a
  \<^verbatim>\<open>}\<close>.
\<close>

definition white :: "string \<Rightarrow> bool" where
  "white t = (skip_ws t = [])"

definition plain :: "char \<Rightarrow> bool" where
  "plain c = (code_of c < 128 \<and> \<not> ws1 (code_of c))"

definition has_fenced_block :: "string \<Rightarrow> bool" where
  "has_fenced_block raw = (\<exists>a b c. raw = a @ fence @ ''json'' @ b @ fence @ c)"

definition has_braces :: "string \<Rightarrow> bool" where
  "has_braces raw = (\<exists>a b c. raw = a @ ''{'' @ b @ ''}'' @ c)"

section \<open>A run of the workflow\<close>

text \<open>
  An account \<^verbatim>\<open>u1\<close> with the given counters and empty stores; a request; an
  outside where every statement succeeds, the primary provider is unreachable and
  the fallback model answers with one file.
\<close>

definition account_world :: "int \<Rightarrow> int \<Rightarrow> world" where
  "account_world used limit =
     \<lparr>users = [''u1'' \<mapsto> \<lparr>generations_used = used, generations_limit = limit\<rparr>],
      generations = Map.empty,
      storage = Map.empty,
      log = []\<rparr>"

definition todo_request :: gen_request where
  "todo_request =
     \<lparr>req_prompt = ''Build a todo list'',
      req_type = Component,
      req_framework = None,
      req_projectId = None\<rparr>"

definition one_file_answer :: string where
  \<open>one_file_answer = ''{"files":[{"name":"a.tsx","content":"X"}]}''\<close>

definition fallback_env :: run_env where
  "fallback_env =
     \<lparr>V0_API_KEY = Some ''v0-key'',
      fetch_v0 = Fetch_throws ''fetch failed'',
      ai_run = AI_response (Some one_file_answer),
      select_error = None,
      insert_error = None,
      put_error = (\<lambda>i. None),
      complete_error = None,
      increment_error = None,
      fail_error = None,
      now_created = ''2024-05-01T10:00:00.000Z'',
      now_completed = ''2024-05-01T10:00:07.000Z''\<rparr>"

text \<open>The same outside, except that one statement throws.\<close>

definition increment_fails_env :: run_env where
  "increment_fails_env = fallback_env\<lparr>increment_error := Some ''D1_ERROR: database unavailable''\<rparr>"

definition put_fails_env :: run_env where
  "put_fails_env = fallback_env\<lparr>put_error := (\<lambda>i. Some ''R2 put failed'')\<rparr>"


definition empty_answer_env :: run_env where
  "empty_answer_env = fallback_env\<lparr>fetch_v0 := Fetch_response 200 ''{}''\<rparr>"

text \<open>
  An outside in which the first \<^verbatim>\<open>put\<close> throws and the database is then unavailable
  for the statement of the \<^verbatim>\<open>catch\<close> block; and two in which the fallback model
  answers \<^verbatim>\<open>null\<close> in a fenced block, and an object whose \<^verbatim>\<open>files\<close> is a number.
\<close>

definition outage_env :: run_env where
  "outage_env = put_fails_env\<lparr>fail_error := Some ''D1_ERROR: database unavailable''\<rparr>"

definition null_answer_env :: run_env where
  "null_answer_env =
     fallback_env\<lparr>ai_run := AI_response (Some (fence @ ''json'' @ nl @ ''null'' @ nl @ fence))\<rparr>"

definition number_files_answer :: string where
  \<open>number_files_answer = ''{"files":5}''\<close>

definition number_files_env :: run_env where
  "number_files_env = fallback_env\<lparr>ai_run := AI_response (Some number_files_answer)\<rparr>"

section \<open>The steps of the workflow\<close>

lemma status_writes_append:
  "status_writes g (a @ b) = status_writes g a @ status_writes g b"
  by (induction a) auto

lemma status_writes_puts: "status_writes g (map (put_event g') fs) = []"
  by (induction fs) (auto simp: put_event_def)

lemma store_files_frame:
  "store_files env g i fs0 urls w = (w', r) \<Longrightarrow>
     users w' = users w \<and> generations w' = generations w
     \<and> (\<exists>n \<le> length fs0. log w' = log w @ map (put_event g) (take n fs0))"
proof (induction fs0 arbitrary: i urls w)
  case Nil
  then show ?case by auto
next
  case (Cons f fs)
  show ?case
  proof (cases "js_get f ''name''")
    case (Inl e)
    with Cons.prems have "w' = w" by simp
    then show ?thesis by (intro conjI exI[of _ 0]) auto
  next
    case (Inr name)
    show ?thesis
    proof (cases "put_error env i")
      case (Some m)
      with Inr Cons.prems have "w' = w" by (simp add: Let_def)
      then show ?thesis by (intro conjI exI[of _ 0]) auto
    next
      case None
      let ?w1 = "add_event (Ev_put (file_key g name) (file_prop f ''content'')
                    (js_or (file_prop f ''type'') (JStr ''text/plain'')))
                  (w\<lparr>storage := (storage w)(file_key g name \<mapsto>
                       \<lparr>b_value = file_prop f ''content'',
                        b_contentType = js_or (file_prop f ''type'') (JStr ''text/plain'')\<rparr>)\<rparr>)"
      from None Inr Cons.prems obtain urls1 where
        rec: "store_files env g (Suc i) fs urls1 ?w1 = (w', r)"
        by (simp add: Let_def)
      from Cons.IH [OF rec] obtain n where
        n: "n \<le> length fs" "log w' = log ?w1 @ map (put_event g) (take n fs)"
        and fr: "users w' = users ?w1" "generations w' = generations ?w1"
        by blast
      have pe: "put_event g f = Ev_put (file_key g name) (file_prop f ''content'')
                    (js_or (file_prop f ''type'') (JStr ''text/plain''))"
        using Inr by (simp add: put_event_def file_prop_def)
      have "log w' = log w @ map (put_event g) (take (Suc n) (f # fs))"
        using n pe by (simp add: add_event_def)
      moreover have "Suc n \<le> length (f # fs)" using n by simp
      ultimately show ?thesis using fr
        by (intro conjI exI[of _ "Suc n"]) (auto simp: add_event_def)
    qed
  qed
qed

lemma store_files_done:
  "store_files env g i fs0 urls w = (w', Inr fileUrls) \<Longrightarrow>
     fileUrls = urls @ map (descriptor g) fs0
     \<and> log w' = log w @ map (put_event g) fs0"
proof (induction fs0 arbitrary: i urls w)
  case Nil
  then show ?case by auto
next
  case (Cons f fs)
  show ?case
  proof (cases "js_get f ''name''")
    case (Inl e)
    with Cons.prems show ?thesis by simp
  next
    case (Inr name)
    show ?thesis
    proof (cases "put_error env i")
      case (Some m)
      with Inr Cons.prems show ?thesis by (simp add: Let_def)
    next
      case None
      let ?w1 = "add_event (Ev_put (file_key g name) (file_prop f ''content'')
                    (js_or (file_prop f ''type'') (JStr ''text/plain'')))
                  (w\<lparr>storage := (storage w)(file_key g name \<mapsto>
                       \<lparr>b_value = file_prop f ''content'',
                        b_contentType = js_or (file_prop f ''type'') (JStr ''text/plain'')\<rparr>)\<rparr>)"
      let ?d = "\<lparr>fu_name = name, fu_url = public_url (file_key g name),
                 fu_type = file_prop f ''type''\<rparr>"
      from None Inr Cons.prems have
        rec: "store_files env g (Suc i) fs (urls @ [?d]) ?w1 = (w', Inr fileUrls)"
        by (simp add: Let_def)
      have nm: "file_prop f ''name'' = name"
        using Inr by (simp add: file_prop_def)
      from Cons.IH [OF rec] nm show ?thesis
        by (simp add: add_event_def descriptor_def put_event_def)
    qed
  qed
qed

lemma run_providers_cases:
  "run_providers env req w = (w1, r) \<Longrightarrow>
     users w1 = users w \<and> generations w1 = generations w \<and> storage w1 = storage w
     \<and> (case callV0API (V0_API_KEY env) (fetch_v0 env) of
           Inr code \<Rightarrow> r = Inr code \<and> log w1 = log w @ [Ev_call_v0]
         | Inl e \<Rightarrow>
             r = generateCode (req_prompt req) (type_name (req_type req))
                   (framework_name (framework_of req)) (ai_run env)
             \<and> log w1 = log w @ [Ev_call_v0, Ev_call_ai])"
  by (auto simp: run_providers_def Let_def add_event_def split: sum.splits)

lemma finalize_success:
  assumes "store_and_finalize env u g code w1 = (w2, Inr resp)"
    and "generations w1 g = Some row" and "users w1 u = Some usr"
  shows "\<exists>fv fs.
           js_get code ''files'' = Inr fv \<and> js_iterate (js_or fv (JArr [])) = Inr fs
           \<and> resp = Resp_generated g code (map (descriptor g) fs) ''Code generated successfully''
           \<and> log w2 = log w1 @ map (put_event g) fs @ [Ev_completed g, Ev_increment u]
           \<and> generations w2 = (generations w1)(g \<mapsto>
                 row\<lparr>g_status := ''completed'', g_result := Some code,
                     g_files := Some (map (descriptor g) fs),
                     g_completed_at := Some (now_completed env)\<rparr>)
           \<and> users w2 = (users w1)(u \<mapsto> usr\<lparr>generations_used := generations_used usr + 1\<rparr>)"
proof -
  from assms(1) obtain fv where fv: "js_get code ''files'' = Inr fv"
    by (auto simp: store_and_finalize_def split: sum.splits)
  from assms(1) fv obtain fs where fs: "js_iterate (js_or fv (JArr [])) = Inr fs"
    by (auto simp: store_and_finalize_def split: sum.splits)
  obtain wa ra where st: "store_files env g 0 fs [] w1 = (wa, ra)"
    by (cases "store_files env g 0 fs [] w1")
  from assms(1) fv fs st obtain urls where ra: "ra = Inr urls"
    by (auto simp: store_and_finalize_def split: sum.splits)
  from store_files_done [OF st [unfolded ra]] have
    urls: "urls = map (descriptor g) fs" and lg: "log wa = log w1 @ map (put_event g) fs"
    by auto
  from store_files_frame [OF st] have fr: "users wa = users w1" "generations wa = generations w1"
    by auto
  from assms(1) fv fs st ra obtain wb where
    cg: "complete_generation env g code urls wa = Inr wb"
    by (auto simp: store_and_finalize_def split: sum.splits)
  from assms(1) fv fs st ra cg have
    iu: "increment_usage env u wb = Inr w2"
    and resp: "resp = Resp_generated g code urls ''Code generated successfully''"
    by (auto simp: store_and_finalize_def split: sum.splits)
  from cg fr assms(2) have wb:
    "wb = add_event (Ev_completed g)
            (wa\<lparr>generations := (generations wa)(g \<mapsto>
                 row\<lparr>g_status := ''completed'', g_result := Some code,
                     g_files := Some urls,
                     g_completed_at := Some (now_completed env)\<rparr>)\<rparr>)"
    by (auto simp: complete_generation_def split: option.splits)
  from iu wb fr assms(3) have w2:
    "w2 = add_event (Ev_increment u)
            (wb\<lparr>users := (users wb)(u \<mapsto> usr\<lparr>generations_used := generations_used usr + 1\<rparr>)\<rparr>)"
    by (auto simp: increment_usage_def add_event_def split: option.splits)
  show ?thesis
    using fv fs resp urls lg fr wb w2
    by (intro exI[of _ fv] exI[of _ fs]) (simp add: add_event_def)
qed

lemma finalize_failure:
  assumes "store_and_finalize env u g code w1 = (w2, Inl e)"
  shows "users w2 = users w1 \<and> (generations w1 g \<noteq> None \<longrightarrow> generations w2 g \<noteq> None)
         \<and> (\<exists>es. log w2 = log w1 @ es
               \<and> (status_writes g es = []
                  \<or> status_writes g es = [''completed''] \<and> increment_error env \<noteq> None))"
proof (cases "js_get code ''files''")
  case (Inl e1)
  with assms have "w2 = w1" by (simp add: store_and_finalize_def)
  then show ?thesis by (intro conjI exI[of _ "[]"]) auto
next
  case fv: (Inr fv)
  show ?thesis
  proof (cases "js_iterate (js_or fv (JArr []))")
    case (Inl e1)
    with assms fv have "w2 = w1" by (simp add: store_and_finalize_def)
    then show ?thesis by (intro conjI exI[of _ "[]"]) auto
  next
    case fs: (Inr fs)
    obtain wa ra where st: "store_files env g 0 fs [] w1 = (wa, ra)"
      by (cases "store_files env g 0 fs [] w1")
    from store_files_frame [OF st] obtain n where
      fr: "users wa = users w1" "generations wa = generations w1"
      and lg: "log wa = log w1 @ map (put_event g) (take n fs)"
      by blast
    show ?thesis
    proof (cases ra)
      case (Inl e1)
      with assms fv fs st have "w2 = wa" by (simp add: store_and_finalize_def)
      with fr lg show ?thesis
        by (intro conjI exI[of _ "map (put_event g) (take n fs)"])
           (auto simp: status_writes_puts)
    next
      case urls: (Inr urls)
      show ?thesis
      proof (cases "complete_generation env g code urls wa")
        case (Inl e1)
        with assms fv fs st urls have "w2 = wa" by (simp add: store_and_finalize_def)
        with fr lg show ?thesis
          by (intro conjI exI[of _ "map (put_event g) (take n fs)"])
             (auto simp: status_writes_puts)
      next
        case wb: (Inr wb)
        with assms fv fs st urls have w2: "w2 = wb" and ie: "increment_usage env u wb = Inl e"
          by (auto simp: store_and_finalize_def split: sum.splits)
        from ie have ne: "increment_error env \<noteq> None"
          by (auto simp: increment_usage_def split: option.splits)
        from wb have uw: "users wb = users wa"
          and gw: "generations wa g \<noteq> None \<longrightarrow> generations wb g \<noteq> None"
          and lw: "log wb = log wa \<or> log wb = log wa @ [Ev_completed g]"
          by (auto simp: complete_generation_def add_event_def split: option.splits)
        from lw show ?thesis
        proof
          assume "log wb = log wa"
          with w2 fr lg uw gw show ?thesis
            by (intro conjI exI[of _ "map (put_event g) (take n fs)"])
               (simp_all add: status_writes_puts)
        next
          assume "log wb = log wa @ [Ev_completed g]"
          with w2 fr lg uw gw ne show ?thesis
            by (intro conjI exI[of _ "map (put_event g) (take n fs) @ [Ev_completed g]"])
               (simp_all add: status_writes_puts status_writes_append)
        qed
      qed
    qed
  qed
qed

lemma complete_generation_effect:
  "complete_generation env g code urls w = Inr w' \<Longrightarrow>
     users w' = users w \<and> storage w' = storage w
     \<and> (generations w g \<noteq> None \<longrightarrow> generations w' g \<noteq> None)
     \<and> (log w' = log w \<or> log w' = log w @ [Ev_completed g])"
  by (auto simp: complete_generation_def add_event_def split: option.splits)

lemma increment_usage_effect:
  "increment_usage env u w = Inr w' \<Longrightarrow>
     generations w' = generations w \<and> storage w' = storage w
     \<and> (log w' = log w \<or> log w' = log w @ [Ev_increment u])"
  by (auto simp: increment_usage_def add_event_def split: option.splits)

lemma mark_failed_effect:
  "mark_failed env g message w = Inr w' \<Longrightarrow>
     users w' = users w \<and> storage w' = storage w
     \<and> (case generations w g of
           None \<Rightarrow> w' = w
         | Some row \<Rightarrow>
             generations w' = (generations w)(g \<mapsto> row\<lparr>g_status := ''failed'', g_error := Some message\<rparr>)
             \<and> log w' = log w @ [Ev_failed g])"
  by (auto simp: mark_failed_def add_event_def split: option.splits)

lemma finalize_extends:
  assumes "store_and_finalize env u g code w1 = (w2, r)"
  shows "\<exists>es. log w2 = log w1 @ es"
proof (cases r)
  case (Inl e)
  with finalize_failure [of env u g code w1 w2 e] assms show ?thesis by blast
next
  case (Inr resp)
  from assms Inr obtain fv where fv: "js_get code ''files'' = Inr fv"
    by (auto simp: store_and_finalize_def split: sum.splits)
  from assms Inr fv obtain fs where fs: "js_iterate (js_or fv (JArr [])) = Inr fs"
    by (auto simp: store_and_finalize_def split: sum.splits)
  obtain wa ra where st: "store_files env g 0 fs [] w1 = (wa, ra)"
    by (cases "store_files env g 0 fs [] w1")
  from assms Inr fv fs st obtain urls where ra: "ra = Inr urls"
    by (auto simp: store_and_finalize_def split: sum.splits)
  from assms Inr fv fs st ra obtain wb where
    cg: "complete_generation env g code urls wa = Inr wb"
    by (auto simp: store_and_finalize_def split: sum.splits)
  from assms Inr fv fs st ra cg have iu: "increment_usage env u wb = Inr w2"
    by (auto simp: store_and_finalize_def split: sum.splits)
  from store_files_frame [OF st] obtain e1 where "log wa = log w1 @ e1" by blast
  moreover from complete_generation_effect [OF cg] obtain e2 where "log wb = log wa @ e2"
    by (metis append_Nil2)
  moreover from increment_usage_effect [OF iu] obtain e3 where "log w2 = log wb @ e3"
    by (metis append_Nil2)
  ultimately show ?thesis by simp
qed

lemma after_insert_extends:
  assumes "after_insert env u g req w1 = (w2, r)"
  shows "\<exists>es. log w2 = log w1 @ Ev_call_v0 # es"
proof -
  obtain wp rp where rp: "run_providers env req w1 = (wp, rp)"
    by (cases "run_providers env req w1")
  from run_providers_cases [OF rp] obtain e0 where e0: "log wp = log w1 @ Ev_call_v0 # e0"
    by (auto split: sum.splits)
  show ?thesis
  proof (cases rp)
    case (Inl e)
    with assms rp have "w2 = wp" by (simp add: after_insert_def)
    with e0 show ?thesis by auto
  next
    case (Inr code)
    with assms rp have "store_and_finalize env u g code wp = (w2, r)"
      by (simp add: after_insert_def)
    from finalize_extends [OF this] e0 show ?thesis by auto
  qed
qed

lemma handler_success:
  assumes "generate_handler env userId generationId req w = (w', Inr (Resp_generated gid code fileUrls message))"
  shows "\<exists>user wi wp.
           select_user env userId w = Inr user \<and> \<not> quota_reached user
           \<and> insert_generation env userId generationId req w = Inr wi
           \<and> run_providers env req wi = (wp, Inr code)
           \<and> store_and_finalize env userId generationId code wp
                = (w', Inr (Resp_generated gid code fileUrls message))"
proof -
  from assms have tr: "generate_try env userId generationId req w
                         = (w', Inr (Resp_generated gid code fileUrls message))"
    by (auto simp: generate_handler_def split: prod.splits sum.splits exn.splits)
  then obtain user where su: "select_user env userId w = Inr user"
    by (auto simp: generate_try_def split: sum.splits)
  from tr su have nq: "\<not> quota_reached user"
    by (auto simp: generate_try_def split: if_splits)
  from tr su nq obtain wi where ins: "insert_generation env userId generationId req w = Inr wi"
    by (auto simp: generate_try_def split: sum.splits)
  from tr su nq ins have ai: "after_insert env userId generationId req wi
                                = (w', Inr (Resp_generated gid code fileUrls message))"
    by (simp add: generate_try_def)
  obtain wp rp where rp: "run_providers env req wi = (wp, rp)"
    by (cases "run_providers env req wi")
  from ai rp obtain code' where c': "rp = Inr code'"
    by (auto simp: after_insert_def split: sum.splits)
  from ai rp c' have fin: "store_and_finalize env userId generationId code' wp
                             = (w', Inr (Resp_generated gid code fileUrls message))"
    by (simp add: after_insert_def)
  then have "code' = code"
    by (auto simp: store_and_finalize_def split: sum.splits prod.splits)
  with su nq ins rp c' fin show ?thesis by blast
qed

lemma after_insert_status:
  assumes "after_insert env u g req w1 = (w2, r)"
    and "generations w1 g = Some row" and "users w1 u = Some usr"
  shows "\<exists>es. log w2 = log w1 @ es \<and> generations w2 g \<noteq> None
           \<and> (case r of
                 Inr resp \<Rightarrow> status_writes g es = [''completed'']
               | Inl e \<Rightarrow>
                   users w2 = users w1
                   \<and> (status_writes g es = []
                      \<or> status_writes g es = [''completed''] \<and> increment_error env \<noteq> None))"
proof -
  obtain wp rp where rp: "run_providers env req w1 = (wp, rp)"
    by (cases "run_providers env req w1")
  from run_providers_cases [OF rp] obtain ps where
    pu: "users wp = users w1" and pg: "generations wp = generations w1"
    and ps: "log wp = log w1 @ ps" "status_writes g ps = []"
    by (auto split: sum.splits)
  show ?thesis
  proof (cases rp)
    case (Inl e)
    with assms(1) rp have "w2 = wp" "r = Inl e" by (auto simp: after_insert_def)
    with pu pg ps assms(2) show ?thesis
      by (intro exI[of _ ps]) simp
  next
    case (Inr code)
    with assms(1) rp have fin: "store_and_finalize env u g code wp = (w2, r)"
      by (simp add: after_insert_def)
    show ?thesis
    proof (cases r)
      case (Inl e)
      from finalize_failure [OF fin [unfolded Inl]] obtain es where
        "users w2 = users wp" "generations wp g \<noteq> None \<longrightarrow> generations w2 g \<noteq> None"
        "log w2 = log wp @ es"
        "status_writes g es = [] \<or> status_writes g es = [''completed''] \<and> increment_error env \<noteq> None"
        by blast
      with Inl pu pg ps assms(2) show ?thesis
        by (intro exI[of _ "ps @ es"]) (auto simp: status_writes_append)
    next
      case r: (Inr resp)
      have row: "generations wp g = Some row" using pg assms(2) by simp
      have usr: "users wp u = Some usr" using pu assms(3) by simp
      from finalize_success [OF fin [unfolded r] row usr] obtain fs where
        lg: "log w2 = log wp @ map (put_event g) fs @ [Ev_completed g, Ev_increment u]"
        and gens: "generations w2 g \<noteq> None"
        by auto
      with r ps show ?thesis
        by (intro exI[of _ "ps @ map (put_event g) fs @ [Ev_completed g, Ev_increment u]"])
           (simp add: status_writes_append status_writes_puts)
    qed
  qed
qed

lemma handler_idle:
  assumes "generate_try env userId generationId req w = (w, x)"
    and "generations w generationId = None"
    and "generate_handler env userId generationId req w = (w', r)"
  shows "w' = w"
proof (cases x)
  case (Inr resp)
  with assms show ?thesis by (simp add: generate_handler_def)
next
  case (Inl e)
  obtain m where e: "e = Exn m" by (cases e)
  show ?thesis
  proof (cases "mark_failed env generationId m w")
    case (Inl e2)
    with assms \<open>x = Inl e\<close> e show ?thesis by (simp add: generate_handler_def)
  next
    case (Inr w3)
    with assms \<open>x = Inl e\<close> e have "w' = w3" by (simp add: generate_handler_def)
    with mark_failed_effect [OF Inr] assms(2) show ?thesis by simp
  qed
qed



lemma js_get_total: "js_get v k = Inr x \<Longrightarrow> \<exists>y. js_get v k' = Inr y"
  by (cases v) auto

lemma prompt_in_fallback_code: "sublist prompt (generateFallbackCode prompt t f)"
  unfolding generateFallbackCode_def join_with.simps append_assoc
  by (rule sublist_appendI)


lemma primary_throws_on_failure:
  "fetched = Fetch_throws m \<or> (fetched = Fetch_response status body \<and> \<not> response_ok status)
     \<Longrightarrow> isl (callV0API key fetched)"
  by (auto simp: callV0API_def)




section \<open>The patterns of the fallback adapter\<close>

text \<open>
  What the two regular expressions of \<^verbatim>\<open>generateCode\<close> match: the first one the
  text between \<^verbatim>\<open>```json\<close> and the next closing fence, without the white space
  around it; the second one the span from the first \<^verbatim>\<open>{\<close> to the last \<^verbatim>\<open>}\<close>; and
  each of them matches exactly the texts that have such a block, or such braces.
\<close>

lemma skip_ws_white: "white w \<Longrightarrow> skip_ws (w @ x) = skip_ws x"
proof (induction w rule: length_induct)
  case (1 w)
  note wh = \<open>white w\<close>
  show ?case
  proof (cases w)
    case Nil
    then show ?thesis by simp
  next
    case (Cons c cs)
    show ?thesis
    proof (cases "ws1 (code_of c)")
      case True
      with wh Cons have "white cs" by (simp add: white_def)
      with "1.IH" [rule_format, of cs] Cons have "skip_ws (cs @ x) = skip_ws x" by simp
      with True Cons show ?thesis by simp
    next
      case nws: False
      show ?thesis
      proof (cases cs)
        case Nil
        with nws wh Cons show ?thesis by (simp add: white_def)
      next
        case cs: (Cons d r)
        show ?thesis
        proof (cases "code_of c = 194 \<and> code_of d = 160")
          case True
          with nws wh Cons cs have "white r" by (simp add: white_def)
          with "1.IH" [rule_format, of r] Cons cs have "skip_ws (r @ x) = skip_ws x" by simp
          with True nws Cons cs show ?thesis by simp
        next
          case n2: False
          show ?thesis
          proof (cases r)
            case Nil
            with n2 nws wh Cons cs show ?thesis by (auto simp: white_def)
          next
            case r: (Cons e r')
            show ?thesis
            proof (cases "ws3 (code_of c) (code_of d) (code_of e)")
              case True
              with n2 nws wh Cons cs r have "white r'" by (auto simp: white_def)
              with "1.IH" [rule_format, of r'] Cons cs r have "skip_ws (r' @ x) = skip_ws x" by simp
              with True n2 nws Cons cs r show ?thesis by auto
            next
              case False
              with n2 nws wh Cons cs r show ?thesis by (auto simp: white_def)
            qed
          qed
        qed
      qed
    qed
  qed
qed

lemma skip_ws_split: "\<exists>lead. t = lead @ skip_ws t \<and> white lead"
proof (induction t rule: length_induct)
  case (1 t)
  show ?case
  proof (cases t)
    case Nil
    then show ?thesis by (simp add: white_def)
  next
    case (Cons c cs)
    show ?thesis
    proof (cases "ws1 (code_of c)")
      case True
      from "1.IH" [rule_format, of cs] Cons obtain lead where
        "cs = lead @ skip_ws cs" "white lead" by auto
      with True Cons have "t = (c # lead) @ skip_ws t" "white (c # lead)"
        by (simp_all add: white_def)
      then show ?thesis by blast
    next
      case nws: False
      show ?thesis
      proof (cases cs)
        case Nil
        with nws Cons have "t = [] @ skip_ws t" "white []" by (simp_all add: white_def)
        then show ?thesis by blast
      next
        case cs: (Cons d r)
        show ?thesis
        proof (cases "code_of c = 194 \<and> code_of d = 160")
          case True
          from "1.IH" [rule_format, of r] Cons cs obtain lead where
            "r = lead @ skip_ws r" "white lead" by auto
          with True nws Cons cs have "t = (c # d # lead) @ skip_ws t" "white (c # d # lead)"
            by (simp_all add: white_def)
          then show ?thesis by blast
        next
          case n2: False
          show ?thesis
          proof (cases r)
            case Nil
            with n2 nws Cons cs have "t = [] @ skip_ws t" "white []" by (auto simp: white_def)
            then show ?thesis by blast
          next
            case r: (Cons e r')
            show ?thesis
            proof (cases "ws3 (code_of c) (code_of d) (code_of e)")
              case True
              from "1.IH" [rule_format, of r'] Cons cs r obtain lead where
                "r' = lead @ skip_ws r'" "white lead" by auto
              with True n2 nws Cons cs r
              have "t = (c # d # e # lead) @ skip_ws t" "white (c # d # e # lead)"
                by (auto simp: white_def)
              then show ?thesis by blast
            next
              case False
              with n2 nws Cons cs r have "t = [] @ skip_ws t" "white []" by (auto simp: white_def)
              then show ?thesis by blast
            qed
          qed
        qed
      qed
    qed
  qed
qed

lemma skip_ws_suffix: "suffix (skip_ws t) t"
  using skip_ws_split [of t] by (auto simp: suffix_def)

lemma not_ws3_ascii: "c < 128 \<Longrightarrow> \<not> ws3 c d e"
  by (simp add: ws3_def)

lemma not_ws3_second: "d < 128 \<Longrightarrow> \<not> ws3 c d e"
  by (auto simp: ws3_def)

lemma not_ws3_third: "e < 128 \<Longrightarrow> \<not> ws3 c d e"
  by (auto simp: ws3_def)

lemma skip_ws_plain: "plain c \<Longrightarrow> skip_ws (c # x) = c # x"
  by (cases x; cases "tl x") (auto simp: plain_def not_ws3_ascii)

lemma skip_ws_keeps:
  "plain c \<Longrightarrow> \<exists>a'. suffix a' a \<and> skip_ws (a @ c # b) = a' @ c # b"
proof (induction a rule: length_induct)
  case (1 a)
  note pl = \<open>plain c\<close>
  show ?case
  proof (cases a)
    case Nil
    with skip_ws_plain [OF pl] show ?thesis by simp
  next
    case (Cons x xs)
    show ?thesis
    proof (cases "ws1 (code_of x)")
      case True
      from "1.IH" [rule_format, of xs] Cons pl
      obtain a' where "suffix a' xs" "skip_ws (xs @ c # b) = a' @ c # b"
        by auto
      with True Cons show ?thesis
        by (intro exI[of _ a']) (simp add: suffix_Cons)
    next
      case nws: False
      show ?thesis
      proof (cases xs)
        case Nil
        show ?thesis
        proof (cases b)
          case Nil
          with \<open>xs = []\<close> Cons nws pl show ?thesis
            by (intro exI[of _ a]) (simp add: plain_def)
        next
          case (Cons e r')
          with \<open>xs = []\<close> \<open>a = x # xs\<close> nws pl show ?thesis
            by (intro exI[of _ a]) (simp add: plain_def not_ws3_second)
        qed
      next
        case xs: (Cons d r)
        show ?thesis
        proof (cases "code_of x = 194 \<and> code_of d = 160")
          case True
          from "1.IH" [rule_format, of r] Cons xs pl
          obtain a' where "suffix a' r" "skip_ws (r @ c # b) = a' @ c # b"
            by auto
          with True nws Cons xs show ?thesis
            by (intro exI[of _ a']) (simp add: suffix_Cons)
        next
          case n2: False
          show ?thesis
          proof (cases r)
            case Nil
            with n2 nws Cons xs pl show ?thesis
              by (intro exI[of _ a]) (auto simp: plain_def not_ws3_third)
          next
            case r: (Cons e r')
            show ?thesis
            proof (cases "ws3 (code_of x) (code_of d) (code_of e)")
              case True
              from "1.IH" [rule_format, of r'] Cons xs r pl
              obtain a' where "suffix a' r'" "skip_ws (r' @ c # b) = a' @ c # b"
                by auto
              with True n2 nws Cons xs r show ?thesis
                by (intro exI[of _ a']) (auto simp: suffix_Cons)
            next
              case False
              with n2 nws Cons xs r show ?thesis
                by (intro exI[of _ a]) auto
            qed
          qed
        qed
      qed
    qed
  qed
qed

lemma backtick_plain: "plain (CHR 0x60)"
  by (simp add: plain_def code_of_def ws1_def)

lemma prefix_short: "prefix xs (ys @ zs) \<Longrightarrow> length xs \<le> length ys \<Longrightarrow> prefix xs ys"
  by (auto simp: prefix_append)

lemma find_from_first:
  "pat \<noteq> [] \<Longrightarrow> \<not> sublist pat (pre @ butlast pat) \<Longrightarrow>
     find_from pat (pre @ pat @ rest) = Some (pat @ rest)"
proof (induction pre)
  case Nil
  then obtain c cs where "pat @ rest = c # cs" by (cases pat) auto
  moreover have "prefix pat (pat @ rest)" by simp
  ultimately show ?case by simp
next
  case (Cons x pre)
  have split: "(x # pre) @ pat @ rest = ((x # pre) @ butlast pat) @ (last pat # rest)"
    using Cons.prems(1) by (metis append.assoc append_Cons append_Nil append_butlast_last_id)
  have np: "\<not> prefix pat ((x # pre) @ pat @ rest)"
  proof
    assume "prefix pat ((x # pre) @ pat @ rest)"
    then have "prefix pat (((x # pre) @ butlast pat) @ (last pat # rest))"
      by (simp only: split)
    moreover have "length pat \<le> length ((x # pre) @ butlast pat)" by simp
    ultimately have "prefix pat ((x # pre) @ butlast pat)" by (rule prefix_short)
    with Cons.prems(2) show False using prefix_imp_sublist by blast
  qed
  from Cons.prems(2) have "\<not> sublist pat (pre @ butlast pat)"
    by (simp add: sublist_Cons_right)
  from Cons.IH [OF Cons.prems(1) this] np show ?case by simp
qed

lemma not_fence_prefix: "x \<noteq> CHR 0x60 \<Longrightarrow> \<not> prefix fence (x # xs)"
  by (simp add: fence_def)

lemma lazy_group_closing:
  "white w \<Longrightarrow> lazy_group acc (w @ fence @ post) = Some (rev acc, post)"
proof -
  assume w: "white w"
  have sk: "skip_ws (w @ fence @ post) = fence @ post"
    using skip_ws_white [OF w, of "fence @ post"] skip_ws_plain [OF backtick_plain]
    by (simp add: fence_def)
  obtain c cs where cs: "w @ fence @ post = c # cs"
    by (cases "w @ fence @ post") (auto simp: fence_def)
  have "lazy_group acc (c # cs) = Some (rev acc, post)"
    using sk cs by (simp add: fence_def)
  with cs show ?thesis by simp
qed

lemma lazy_group_body:
  "g \<noteq> [] \<Longrightarrow> \<not> sublist fence (g @ w @ [CHR 0x60, CHR 0x60]) \<Longrightarrow> plain (last g) \<Longrightarrow> white w \<Longrightarrow>
     lazy_group acc (g @ w @ fence @ post) = Some (rev acc @ g, post)"
proof (induction g arbitrary: acc)
  case Nil
  then show ?case by simp
next
  case (Cons x g')
  let ?b = "w @ fence @ post"
  obtain bl l where gl: "x # g' = bl @ [l]" and l: "l = last (x # g')"
    by (metis append_butlast_last_id list.distinct(1))
  from Cons.prems(3) l have pl: "plain l" by simp
  from skip_ws_keeps [OF pl, of bl ?b]
  obtain a' where a': "suffix a' bl"
    and sk: "skip_ws (bl @ l # ?b) = a' @ l # ?b"
    by blast
  have eq: "(x # g') @ ?b = bl @ l # ?b"
    by (simp only: gl append_assoc append_Cons append_Nil)
  from a' obtain h where h: "bl = h @ a'" by (auto simp: suffix_def)
  have np: "\<not> prefix fence (skip_ws ((x # g') @ ?b))"
  proof
    assume "prefix fence (skip_ws ((x # g') @ ?b))"
    then have "prefix fence (a' @ l # ?b)"
      by (simp only: eq sk)
    then have "prefix fence ((a' @ [l] @ w @ [CHR 0x60, CHR 0x60]) @ (CHR 0x60 # post))"
      by (simp add: fence_def)
    moreover have "length fence \<le> length (a' @ [l] @ w @ [CHR 0x60, CHR 0x60])"
      by (simp add: fence_def)
    ultimately have "prefix fence (a' @ [l] @ w @ [CHR 0x60, CHR 0x60])"
      by (rule prefix_short)
    then have "sublist fence (a' @ [l] @ w @ [CHR 0x60, CHR 0x60])"
      by (rule prefix_imp_sublist)
    then obtain p s where "a' @ [l] @ w @ [CHR 0x60, CHR 0x60] = p @ fence @ s"
      by (auto simp: sublist_def)
    then have "h @ (a' @ [l] @ w @ [CHR 0x60, CHR 0x60]) = (h @ p) @ fence @ s"
      by simp
    then have "sublist fence (h @ (a' @ [l] @ w @ [CHR 0x60, CHR 0x60]))"
      by (metis sublist_appendI)
    moreover have "(x # g') @ w @ [CHR 0x60, CHR 0x60] = h @ (a' @ [l] @ w @ [CHR 0x60, CHR 0x60])"
      by (simp only: gl h append_assoc)
    ultimately have "sublist fence ((x # g') @ w @ [CHR 0x60, CHR 0x60])"
      by metis
    with Cons.prems(2) show False by blast
  qed
  then have step: "lazy_group acc ((x # g') @ ?b) = lazy_group (x # acc) (g' @ ?b)"
    by simp
  show ?case
  proof (cases "g' = []")
    case True
    with step lazy_group_closing [OF Cons.prems(4), of "x # acc" post] show ?thesis
      by simp
  next
    case False
    from Cons.prems(2) have "\<not> sublist fence (g' @ w @ [CHR 0x60, CHR 0x60])"
      by (simp add: sublist_Cons_right)
    moreover from False Cons.prems(3) have "plain (last g')" by simp
    ultimately show ?thesis
      using Cons.IH [OF False _ _ Cons.prems(4), of "x # acc"] step by simp
  qed
qed

lemma take_whole: "take (length (a @ p) - length p) (a @ p) = a"
  by simp

lemma match_fenced_block:
  assumes "\<not> sublist (fence @ ''json'') (pre @ fence @ ''jso'')" and "white lead"
    and "g \<noteq> []" and "plain (hd g)" and "plain (last g)" and "white trail"
    and "\<not> sublist fence (g @ trail @ [CHR 0x60, CHR 0x60])"
  shows "match_fenced (pre @ fence @ ''json'' @ lead @ g @ trail @ fence @ post)
           = Some (fence @ ''json'' @ lead @ g @ trail @ fence, g)"
proof -
  let ?rest = "lead @ g @ trail @ fence @ post"
  let ?m = "fence @ ''json'' @ ?rest"
  have bl: "butlast (fence @ ''json'') = fence @ ''jso''"
    by (simp add: fence_def)
  have ne: "fence @ ''json'' \<noteq> []" by simp
  have nb: "\<not> sublist (fence @ ''json'') (pre @ butlast (fence @ ''json''))"
    unfolding bl by (rule assms(1))
  from find_from_first [OF ne nb, of ?rest]
  have ff: "find_from (fence @ ''json'') (pre @ fence @ ''json'' @ ?rest) = Some ?m"
    by (simp only: append_assoc)
  have d: "drop 7 ?m = ?rest"
    by (simp add: fence_def)
  obtain x g' where g: "g = x # g'" using assms(3) by (cases g) auto
  with assms(4) have "plain x" by simp
  from skip_ws_plain [OF this] g have "skip_ws (g @ trail @ fence @ post) = g @ trail @ fence @ post"
    by simp
  with skip_ws_white [OF assms(2), of "g @ trail @ fence @ post"]
  have sk: "skip_ws ?rest = g @ trail @ fence @ post" by simp
  have lg: "lazy_group [] (g @ trail @ fence @ post) = Some (g, post)"
    using lazy_group_body [OF assms(3,7,5,6), of "[]" post] by simp
  have tk: "take (length ?m - length post) ?m = fence @ ''json'' @ lead @ g @ trail @ fence"
    using take_whole [of "fence @ ''json'' @ lead @ g @ trail @ fence" post]
    by (simp only: append_assoc)
  have "match_fenced (pre @ fence @ ''json'' @ ?rest)
          = (case lazy_group [] (skip_ws (drop 7 ?m)) of
               None \<Rightarrow> None
             | Some (g, rest) \<Rightarrow> Some (take (length ?m - length rest) ?m, g))"
    by (simp only: match_fenced_def ff option.case)
  also have "\<dots> = Some (take (length ?m - length post) ?m, g)"
    by (simp only: d sk lg option.case prod.case)
  finally show ?thesis
    by (simp only: tk)
qed

lemma match_braces_span:
  assumes "CHR ''{'' \<notin> set pre" and "CHR ''}'' \<notin> set post"
  shows "match_braces (pre @ ''{'' @ body @ ''}'' @ post) = Some (''{'' @ body @ ''}'')"
proof -
  have d: "dropWhile (\<lambda>c. c \<noteq> CHR ''{'') (pre @ ''{'' @ body @ ''}'' @ post)
             = CHR ''{'' # (body @ ''}'' @ post)"
    using assms(1) by (auto simp: dropWhile_append3)
  have r: "dropWhile (\<lambda>c. c \<noteq> CHR ''}'') (rev (body @ ''}'' @ post)) = CHR ''}'' # rev body"
    using assms(2) by (auto simp: dropWhile_append3)
  show ?thesis
    unfolding match_braces_def d using r by simp
qed

lemma lazy_group_Some:
  "lazy_group acc t = Some (g, rest) \<Longrightarrow>
     \<exists>body trail. g = rev acc @ body \<and> t = body @ trail @ fence @ rest \<and> white trail"
proof (induction t arbitrary: acc)
  case Nil
  then show ?case by simp
next
  case (Cons c cs)
  show ?case
  proof (cases "prefix fence (skip_ws (c # cs))")
    case True
    with Cons.prems have g: "g = rev acc" and rest: "rest = drop 3 (skip_ws (c # cs))" by simp_all
    from True obtain z where "skip_ws (c # cs) = fence @ z" by (auto simp: prefix_def)
    with rest have "skip_ws (c # cs) = fence @ rest" by (simp add: fence_def)
    with skip_ws_split [of "c # cs"] obtain trail where
      "c # cs = trail @ fence @ rest" "white trail" by auto
    with g show ?thesis by (intro exI[of _ "[]"] exI[of _ trail]) simp
  next
    case False
    with Cons.prems have "lazy_group (c # acc) cs = Some (g, rest)" by simp
    from Cons.IH [OF this] obtain body trail where
      "g = rev (c # acc) @ body" "cs = body @ trail @ fence @ rest" "white trail" by blast
    then show ?thesis by (intro exI[of _ "c # body"] exI[of _ trail]) simp
  qed
qed

lemma find_from_Some: "find_from pat s = Some m \<Longrightarrow> prefix pat m \<and> suffix m s"
proof (induction s)
  case Nil
  then show ?case by (auto split: if_splits)
next
  case (Cons c cs)
  show ?case
  proof (cases "prefix pat (c # cs)")
    case True
    with Cons.prems show ?thesis by auto
  next
    case False
    with Cons.prems Cons.IH show ?thesis by (auto simp: suffix_Cons)
  qed
qed

lemma match_fenced_parts:
  "match_fenced raw = Some (whole, g) \<Longrightarrow>
     \<exists>a lead trail c. raw = a @ fence @ ''json'' @ lead @ g @ trail @ fence @ c
        \<and> whole = fence @ ''json'' @ lead @ g @ trail @ fence \<and> white lead \<and> white trail"
proof -
  assume a: "match_fenced raw = Some (whole, g)"
  then obtain m where m: "find_from (fence @ ''json'') raw = Some m"
    by (auto simp: match_fenced_def split: option.splits)
  with a obtain rest where lg: "lazy_group [] (skip_ws (drop 7 m)) = Some (g, rest)"
    and whole: "whole = take (length m - length rest) m"
    by (auto simp: match_fenced_def split: option.splits)
  from find_from_Some [OF m] obtain pre z where
    raw: "raw = pre @ m" and mz: "m = (fence @ ''json'') @ z"
    by (auto simp: prefix_def suffix_def)
  from mz have d: "drop 7 m = z" by (simp add: fence_def)
  from skip_ws_split [of z] obtain lead where lead: "z = lead @ skip_ws z" "white lead"
    by blast
  from lazy_group_Some [OF lg] obtain trail where
    tr: "skip_ws z = g @ trail @ fence @ rest" "white trail"
    unfolding d by auto
  from lead(1) tr(1) have z: "z = lead @ g @ trail @ fence @ rest" by simp
  have m2: "m = (fence @ ''json'' @ lead @ g @ trail @ fence) @ rest"
    unfolding mz z by simp
  have "whole = fence @ ''json'' @ lead @ g @ trail @ fence"
    unfolding whole m2 by (rule take_whole)
  moreover have "raw = pre @ fence @ ''json'' @ lead @ g @ trail @ fence @ rest"
    unfolding raw m2 by simp
  ultimately show ?thesis using lead(2) tr(2) by blast
qed

lemma match_fenced_Some: "match_fenced raw = Some x \<Longrightarrow> has_fenced_block raw"
proof -
  assume "match_fenced raw = Some x"
  then have "match_fenced raw = Some (fst x, snd x)" by simp
  from match_fenced_parts [OF this] obtain a lead trail c where
    "raw = a @ fence @ ''json'' @ (lead @ snd x @ trail) @ fence @ c"
    by auto
  then show ?thesis unfolding has_fenced_block_def by blast
qed

lemma find_from_occurs:
  "\<exists>m. find_from pat (a @ pat @ r) = Some m \<and> prefix pat m \<and> suffix (pat @ r) m"
proof (induction a)
  case Nil
  show ?case
  proof (cases "pat @ r")
    case Nil
    then show ?thesis by simp
  next
    case (Cons c cs)
    have "prefix pat (c # cs)" unfolding Cons [symmetric] by simp
    then have "find_from pat (c # cs) = Some (c # cs)" by simp
    then show ?thesis unfolding Cons [symmetric] by simp
  qed
next
  case (Cons x a)
  show ?case
  proof (cases "prefix pat (x # a @ pat @ r)")
    case True
    then have "find_from pat ((x # a) @ pat @ r) = Some ((x # a) @ pat @ r)" by simp
    moreover have "suffix (pat @ r) ((x # a) @ pat @ r)" by (rule suffix_appendI) simp
    ultimately show ?thesis using True by simp
  next
    case False
    then have "find_from pat ((x # a) @ pat @ r) = find_from pat (a @ pat @ r)" by simp
    with Cons.IH show ?thesis by simp
  qed
qed

lemma lazy_group_finds: "lazy_group acc (u @ fence @ c) \<noteq> None"
proof (induction u arbitrary: acc)
  case Nil
  have "skip_ws (fence @ c) = fence @ c"
    using skip_ws_plain [OF backtick_plain] by (simp add: fence_def)
  then show ?case by (simp add: fence_def)
next
  case (Cons x u)
  show ?case
  proof (cases "prefix fence (skip_ws (x # u @ fence @ c))")
    case True
    then show ?thesis by simp
  next
    case False
    then have "lazy_group acc ((x # u) @ fence @ c) = lazy_group (x # acc) (u @ fence @ c)"
      by simp
    with Cons.IH [of "x # acc"] show ?thesis by simp
  qed
qed

lemma suffix_of_tail: "suffix r (p @ z) \<Longrightarrow> length r \<le> length z \<Longrightarrow> suffix r z"
  by (auto simp: suffix_append)

lemma match_fenced_finds: "has_fenced_block raw \<Longrightarrow> match_fenced raw \<noteq> None"
proof -
  assume "has_fenced_block raw"
  then obtain a b c where raw: "raw = a @ (fence @ ''json'') @ (b @ fence @ c)"
    unfolding has_fenced_block_def by auto
  from find_from_occurs [of "fence @ ''json''" a "b @ fence @ c"] obtain m where
    m: "find_from (fence @ ''json'') raw = Some m"
    and pm: "prefix (fence @ ''json'') m"
    and sm: "suffix ((fence @ ''json'') @ b @ fence @ c) m"
    unfolding raw by blast
  from pm obtain z where mz: "m = (fence @ ''json'') @ z" by (auto simp: prefix_def)
  then have d: "drop 7 m = z" by (simp add: fence_def)
  from sm have "suffix (b @ fence @ c) ((fence @ ''json'') @ z)"
    unfolding mz using suffix_appendD by blast
  moreover from sm have "length ((fence @ ''json'') @ b @ fence @ c) \<le> length m"
    by (rule suffix_length_le)
  then have "length (b @ fence @ c) \<le> length z" unfolding mz by simp
  ultimately have "suffix (b @ fence @ c) z" by (rule suffix_of_tail)
  then obtain v where z: "z = (v @ b) @ CHR 0x60 # (tl fence @ c)"
    by (auto simp: suffix_def fence_def)
  from skip_ws_keeps [OF backtick_plain, of "v @ b" "tl fence @ c"] obtain u where
    "skip_ws z = u @ CHR 0x60 # (tl fence @ c)"
    unfolding z by blast
  then have "skip_ws z = u @ fence @ c" by (simp add: fence_def)
  with lazy_group_finds [of "[]" u c] obtain y where "lazy_group [] (skip_ws z) = Some y"
    by auto
  with m d show ?thesis
    by (simp add: match_fenced_def split: prod.splits)
qed

lemma match_fenced_None_iff: "match_fenced raw = None \<longleftrightarrow> \<not> has_fenced_block raw"
  using match_fenced_finds [of raw] match_fenced_Some [of raw] by (cases "match_fenced raw") auto

lemma match_braces_Some: "match_braces raw = Some x \<Longrightarrow> has_braces raw"
proof -
  assume a: "match_braces raw = Some x"
  let ?t = "takeWhile (\<lambda>c. c \<noteq> CHR ''{'') raw"
  obtain b body where d: "dropWhile (\<lambda>c. c \<noteq> CHR ''{'') raw = b # body"
    using a by (cases "dropWhile (\<lambda>c. c \<noteq> CHR ''{'') raw") (auto simp: match_braces_def)
  then have b: "b = CHR ''{''"
    using hd_dropWhile [of "\<lambda>c. c \<noteq> CHR ''{''" raw] by auto
  from a d have "CHR ''}'' \<in> set body"
    by (auto simp: match_braces_def split: if_splits)
  then obtain u v where "body = u @ CHR ''}'' # v"
    by (meson split_list)
  with d b have "raw = ?t @ ''{'' @ u @ ''}'' @ v"
    using takeWhile_dropWhile_id [of "\<lambda>c. c \<noteq> CHR ''{''" raw] by simp
  then show ?thesis unfolding has_braces_def by blast
qed

lemma match_braces_finds: "has_braces raw \<Longrightarrow> match_braces raw \<noteq> None"
proof -
  assume "has_braces raw"
  then obtain a b c where raw: "raw = a @ CHR ''{'' # b @ CHR ''}'' # c"
    unfolding has_braces_def by auto
  have "CHR ''{'' \<in> set raw" unfolding raw by simp
  then obtain t body where tb: "raw = t @ CHR ''{'' # body" "CHR ''{'' \<notin> set t"
    by (meson split_list_first)
  then have d: "dropWhile (\<lambda>c. c \<noteq> CHR ''{'') raw = CHR ''{'' # body"
    by (auto simp: dropWhile_append3)
  have "CHR ''}'' \<in> set body"
  proof -
    from tb(1) raw have "t @ CHR ''{'' # body = a @ CHR ''{'' # b @ CHR ''}'' # c" by simp
    then consider us where "a = t @ us" "CHR ''{'' # body = us @ CHR ''{'' # b @ CHR ''}'' # c"
      | us where "t = a @ us" "us @ CHR ''{'' # body = CHR ''{'' # b @ CHR ''}'' # c"
      by (auto simp: append_eq_append_conv2)
    then show ?thesis
    proof cases
      case 1
      then show ?thesis by (cases us) auto
    next
      case 2
      with tb(2) show ?thesis by (cases us) auto
    qed
  qed
  with d show ?thesis by (simp add: match_braces_def)
qed

lemma match_braces_None_iff: "match_braces raw = None \<longleftrightarrow> \<not> has_braces raw"
  using match_braces_finds [of raw] match_braces_Some [of raw] by (cases "match_braces raw") auto

lemma no_backtick_no_block: "CHR 0x60 \<notin> set raw \<Longrightarrow> \<not> has_fenced_block raw"
  by (auto simp: has_fenced_block_def fence_def)

lemma no_brace_no_braces: "CHR ''{'' \<notin> set raw \<Longrightarrow> \<not> has_braces raw"
  by (auto simp: has_braces_def)

section \<open>The quota gate\<close>

lemma limit_message_sublist:
  "sublist ''Generation limit reached'' ''Generation limit reached. Upgrade your plan to continue.''"
  by code_simp

text \<open>
  Claim C1. When the quota read succeeds and the account's usage counter is greater
  than or equal to its limit, the handler answers 429 with a message that contains
  \<^verbatim>\<open>Generation limit reached\<close>, and the world after the run is the world before it:
  no row inserted, no blob written, no counter changed, nothing logged.
\<close>

theorem quota_gate_rejects:
  assumes "select_error env = None"
    and "users w userId = Some user"
    and "generations_used user \<ge> generations_limit user"
  shows "\<exists>message.
           generate_handler env userId generationId req w = (w, Inr (Resp_error 429 message))
           \<and> sublist ''Generation limit reached'' message"
proof -
  have "generate_handler env userId generationId req w =
          (w, Inr (Resp_error 429 ''Generation limit reached. Upgrade your plan to continue.''))"
    using assms
    by (simp add: generate_handler_def generate_try_def select_user_def quota_reached_def)
  with limit_message_sublist show ?thesis by blast
qed

text \<open>The scenario of the spec: usage 3, limit 3.\<close>

theorem quota_gate_rejects_witness:
  "select_error fallback_env = None
   \<and> users (account_world 3 3) ''u1'' = Some \<lparr>generations_used = 3, generations_limit = 3\<rparr>
   \<and> (\<exists>message.
         generate_handler fallback_env ''u1'' ''g1'' todo_request (account_world 3 3)
           = (account_world 3 3, Inr (Resp_error 429 message))
         \<and> sublist ''Generation limit reached'' message)"
proof -
  have e: "select_error fallback_env = None"
    by (simp add: fallback_env_def)
  have u: "users (account_world 3 3) ''u1'' = Some \<lparr>generations_used = 3, generations_limit = 3\<rparr>"
    by (simp add: account_world_def)
  have q: "generations_used \<lparr>generations_used = 3, generations_limit = 3\<rparr>
             \<ge> generations_limit \<lparr>generations_used = 3, generations_limit = 3\<rparr>"
    by simp
  from quota_gate_rejects [OF e u q, of "''g1''" todo_request] e u show ?thesis
    by blast
qed

section \<open>The page size of the history route\<close>

text \<open>
  The number the handler binds to \<^verbatim>\<open>LIMIT\<close> is never greater than 50 (it is \<^verbatim>\<open>NaN\<close>
  when the parameter does not start with a number), and it is 10 when the parameter
  is absent; when it is not negative, the answer has at most 50 rows.
\<close>

lemma history_limit_at_most_50:
  "(history_limit q = Some n \<longrightarrow> n \<le> 50) \<and> history_limit None = Some 10"
proof
  show "history_limit q = Some n \<longrightarrow> n \<le> 50"
    by (auto simp: history_limit_def)
  show "history_limit None = Some 10"
    by code_simp
qed

lemma history_page_size:
  "history_results qpage qlimit rows = Some page \<Longrightarrow> history_limit qlimit = Some n \<Longrightarrow> 0 \<le> n \<Longrightarrow>
     length page \<le> 50"
  by (auto simp: history_results_def sql_limit_offset_def history_limit_def Let_def
           split: option.splits if_splits)

text \<open>
  Claim C9 fails on the code. \<^verbatim>\<open>Math.min\<close> bounds the limit from above only: for
  \<^verbatim>\<open>limit=-1\<close> the handler binds \<open>-1\<close> to \<^verbatim>\<open>LIMIT\<close> and 0 to \<^verbatim>\<open>OFFSET\<close>, and the answer
  has every row of the caller, 51 of them when the caller has 51.
\<close>

theorem negative_limit_returns_every_row:
  "history_limit (Some ''-1'') = Some (- 1)
   \<and> history_results None (Some ''-1'') (rows :: 'a list) = Some rows
   \<and> map_option length (history_results None (Some ''-1'') (replicate 51 (row :: 'a))) = Some 51"
proof -
  have l: "history_limit (Some ''-1'') = Some (- 1)" by code_simp
  have p: "history_page None = Some 1" by code_simp
  have r: "history_results None (Some ''-1'') xs = Some xs" for xs :: "'a list"
    by (simp add: history_results_def history_offset_def l p sql_limit_offset_def)
  from l r [of rows] r [of "replicate 51 row"] show ?thesis by simp
qed


section \<open>The request ledger\<close>

text \<open>
  Claim C2. In every run that passes the quota gate, the ledger insert is the first
  thing done: when it succeeds the row is there with status \<^verbatim>\<open>processing\<close> and the
  events of the run start with the insert, followed by the call of the primary
  provider, so every provider call comes after it; when the insert throws, no provider
  is called at all.
\<close>

theorem ledger_row_before_providers:
  assumes "select_error env = None"
    and "users w userId = Some user"
    and "generations_used user < generations_limit user"
    and "generate_handler env userId generationId req w = (w', r)"
  shows "case insert_generation env userId generationId req w of
           Inl e \<Rightarrow> Ev_call_v0 \<notin> set (run_events w w') \<and> Ev_call_ai \<notin> set (run_events w w')
         | Inr w1 \<Rightarrow>
             map_option g_status (generations w1 generationId) = Some ''processing''
             \<and> (\<exists>es. run_events w w' = Ev_insert generationId # Ev_call_v0 # es)"
proof (cases "insert_generation env userId generationId req w")
  case (Inl e)
  obtain m where e: "e = Exn m" by (cases e)
  from assms(1-3) Inl e have tr:"generate_try env userId generationId req w = (w, Inl (Exn m))"
    by (simp add: generate_try_def select_user_def quota_reached_def)
  have "run_events w w' = [] \<or> run_events w w' = [Ev_failed generationId]"
  proof (cases "mark_failed env generationId m w")
    case (Inl e2)
    with tr assms(4) have "w' = w" by (simp add: generate_handler_def)
    then show ?thesis by (simp add: run_events_def)
  next
    case (Inr w2)
    with tr assms(4) have "w' = w2" by (simp add: generate_handler_def)
    with mark_failed_effect [OF Inr] show ?thesis
      by (auto simp: run_events_def split: option.splits)
  qed
  with Inl show ?thesis by auto
next
  case (Inr w1)
  from Inr have row: "map_option g_status (generations w1 generationId) = Some ''processing''"
    and lg1: "log w1 = log w @ [Ev_insert generationId]"
    by (auto simp: insert_generation_def new_row_def add_event_def split: option.splits if_splits)
  obtain w2 r2 where ai: "after_insert env userId generationId req w1 = (w2, r2)"
    by (cases "after_insert env userId generationId req w1")
  from assms(1-3) Inr ai have tr:"generate_try env userId generationId req w = (w2, r2)"
    by (simp add: generate_try_def select_user_def quota_reached_def)
  from after_insert_extends [OF ai] obtain es where es: "log w2 = log w1 @ Ev_call_v0 # es"
    by blast
  have "\<exists>es'. log w' = log w2 @ es'"
  proof (cases r2)
    case (Inr resp)
    with tr assms(4) show ?thesis by (simp add: generate_handler_def)
  next
    case (Inl e)
    obtain m where e: "e = Exn m" by (cases e)
    show ?thesis
    proof (cases "mark_failed env generationId m w2")
      case (Inl e2)
      with tr \<open>r2 = Inl e\<close> e assms(4) show ?thesis by (simp add: generate_handler_def)
    next
      case (Inr w3)
      with tr \<open>r2 = Inl e\<close> e assms(4) have "w' = w3" by (simp add: generate_handler_def)
      with mark_failed_effect [OF Inr] show ?thesis
        by (auto split: option.splits)
    qed
  qed
  then obtain es' where "log w' = log w2 @ es'" by blast
  with es lg1 have "run_events w w' = Ev_insert generationId # Ev_call_v0 # (es @ es')"
    by (simp add: run_events_def)
  with row Inr show ?thesis by simp
qed

theorem ledger_row_before_providers_witness:
  "select_error fallback_env = None
   \<and> users (account_world 0 3) ''u1'' = Some \<lparr>generations_used = 0, generations_limit = 3\<rparr>
   \<and> (\<exists>es. run_events (account_world 0 3)
               (fst (generate_handler fallback_env ''u1'' ''g1'' todo_request (account_world 0 3)))
             = Ev_insert ''g1'' # Ev_call_v0 # es)"
proof -
  have e: "select_error fallback_env = None"
    by (simp add: fallback_env_def)
  have u: "users (account_world 0 3) ''u1'' = Some \<lparr>generations_used = 0, generations_limit = 3\<rparr>"
    by (simp add: account_world_def)
  have q: "generations_used \<lparr>generations_used = 0, generations_limit = 3\<rparr>
             < generations_limit \<lparr>generations_used = 0, generations_limit = 3\<rparr>"
    by simp
  obtain w1 where i: "insert_generation fallback_env ''u1'' ''g1'' todo_request (account_world 0 3) = Inr w1"
    by (simp add: insert_generation_def fallback_env_def account_world_def)
  from ledger_row_before_providers [OF e u q surjective_pairing, of "''g1''" todo_request] i e u
  show ?thesis by simp
qed

section \<open>A successful generation\<close>

text \<open>
  Claim C5. When the handler answers with the generated code: the identifier had no
  row before and the run created exactly that row; its final state is
  \<^verbatim>\<open>completed\<close> with the provider's result, the descriptor list and the completion
  time; the descriptor list is as long as the list of files the provider returned; the
  account's usage counter is one more than before; and the completed update and the
  usage increment are the last two events, two statements.
\<close>

theorem successful_generation:
  assumes "generate_handler env userId generationId req w
             = (w', Inr (Resp_generated gid code fileUrls message))"
  shows "\<exists>user fv fs es.
           gid = generationId
           \<and> generations w generationId = None
           \<and> generations w' = (generations w)(generationId \<mapsto>
                 (new_row env userId req)\<lparr>g_status := ''completed'', g_result := Some code,
                     g_files := Some fileUrls,
                     g_completed_at := Some (now_completed env)\<rparr>)
           \<and> (callV0API (V0_API_KEY env) (fetch_v0 env) = Inr code
                \<or> generateCode (req_prompt req) (type_name (req_type req))
                     (framework_name (framework_of req)) (ai_run env) = Inr code)
           \<and> js_get code ''files'' = Inr fv \<and> js_iterate (js_or fv (JArr [])) = Inr fs
           \<and> length fileUrls = length fs
           \<and> users w userId = Some user
           \<and> users w' = (users w)(userId \<mapsto> user\<lparr>generations_used := generations_used user + 1\<rparr>)
           \<and> run_events w w'
                = Ev_insert generationId # es @ [Ev_completed generationId, Ev_increment userId]
           \<and> status_writes generationId es = []"
proof -
  from handler_success [OF assms] obtain user wi wp where
    su: "select_user env userId w = Inr user"
    and ins: "insert_generation env userId generationId req w = Inr wi"
    and rp: "run_providers env req wi = (wp, Inr code)"
    and fin: "store_and_finalize env userId generationId code wp
                = (w', Inr (Resp_generated gid code fileUrls message))"
    by blast
  from su have user: "users w userId = Some user"
    by (auto simp: select_user_def split: option.splits)
  from ins have fresh: "generations w generationId = None"
    and wi: "wi = add_event (Ev_insert generationId)
                    (w\<lparr>generations := (generations w)(generationId \<mapsto> new_row env userId req)\<rparr>)"
    by (auto simp: insert_generation_def split: option.splits if_splits)
  from run_providers_cases [OF rp] have
    pu: "users wp = users wi" and pg: "generations wp = generations wi"
    and pl: "log wp = log wi @ [Ev_call_v0] \<or> log wp = log wi @ [Ev_call_v0, Ev_call_ai]"
    and pc: "callV0API (V0_API_KEY env) (fetch_v0 env) = Inr code
             \<or> generateCode (req_prompt req) (type_name (req_type req))
                  (framework_name (framework_of req)) (ai_run env) = Inr code"
    by (auto split: sum.splits)
  have row: "generations wp generationId = Some (new_row env userId req)"
    using pg wi by (simp add: add_event_def)
  have usr: "users wp userId = Some user"
    using pu wi user by (simp add: add_event_def)
  from finalize_success [OF fin row usr] obtain fv fs where
    fv: "js_get code ''files'' = Inr fv" and fs: "js_iterate (js_or fv (JArr [])) = Inr fs"
    and resp: "Resp_generated gid code fileUrls message
                 = Resp_generated generationId code (map (descriptor generationId) fs)
                     ''Code generated successfully''"
    and lg: "log w' = log wp @ map (put_event generationId) fs
                       @ [Ev_completed generationId, Ev_increment userId]"
    and gens: "generations w' = (generations wp)(generationId \<mapsto>
                 (new_row env userId req)\<lparr>g_status := ''completed'', g_result := Some code,
                     g_files := Some (map (descriptor generationId) fs),
                     g_completed_at := Some (now_completed env)\<rparr>)"
    and us: "users w' = (users wp)(userId \<mapsto> user\<lparr>generations_used := generations_used user + 1\<rparr>)"
    by blast
  from resp have gid: "gid = generationId" and urls: "fileUrls = map (descriptor generationId) fs"
    by auto
  from pl obtain ps where ps: "log wp = log wi @ ps" "status_writes generationId ps = []"
    by auto
  let ?es = "ps @ map (put_event generationId) fs"
  have ev: "run_events w w'
              = Ev_insert generationId # ?es @ [Ev_completed generationId, Ev_increment userId]"
    using lg ps wi by (simp add: run_events_def add_event_def)
  have sw: "status_writes generationId ?es = []"
    using ps by (simp add: status_writes_append status_writes_puts)
  have g': "generations w' = (generations w)(generationId \<mapsto>
                 (new_row env userId req)\<lparr>g_status := ''completed'', g_result := Some code,
                     g_files := Some fileUrls,
                     g_completed_at := Some (now_completed env)\<rparr>)"
    using gens pg wi urls by (simp add: add_event_def)
  have u': "users w' = (users w)(userId \<mapsto> user\<lparr>generations_used := generations_used user + 1\<rparr>)"
    using us pu wi by (simp add: add_event_def)
  show ?thesis
    using gid fresh g' pc fv fs urls user u' ev sw
    by (intro exI[of _ user] exI[of _ fv] exI[of _ fs] exI[of _ ?es]) simp
qed

text \<open>The scenario of the spec: the primary provider throws, the fallback returns one file.\<close>

theorem successful_generation_witness:
  "\<exists>w' fileUrls.
     generate_handler fallback_env ''u1'' ''g1'' todo_request (account_world 0 3)
       = (w', Inr (Resp_generated ''g1''
                    (JObj [(''files'', JArr [JObj [(''name'', JStr ''a.tsx''), (''content'', JStr ''X'')]])])
                    fileUrls ''Code generated successfully''))
     \<and> length fileUrls = 1
     \<and> map_option g_status (generations w' ''g1'') = Some ''completed''
     \<and> users w' ''u1'' = Some \<lparr>generations_used = 1, generations_limit = 3\<rparr>"
proof -
  let ?H = "generate_handler fallback_env ''u1'' ''g1'' todo_request (account_world 0 3)"
  let ?code = "JObj [(''files'', JArr [JObj [(''name'', JStr ''a.tsx''), (''content'', JStr ''X'')]])]"
  let ?urls = "[\<lparr>fu_name = Some (JStr ''a.tsx''),
                 fu_url = ''https://storage.thisaicodes.com/generations/g1/a.tsx'',
                 fu_type = None\<rparr>]"
  have "snd ?H = Inr (Resp_generated ''g1'' ?code ?urls ''Code generated successfully'')"
    by code_simp
  then have run: "?H = (fst ?H, Inr (Resp_generated ''g1'' ?code ?urls ''Code generated successfully''))"
    by (metis prod.collapse)
  from successful_generation [OF run] obtain user where
    "generations (fst ?H) = (generations (account_world 0 3))(''g1'' \<mapsto>
        (new_row fallback_env ''u1'' todo_request)\<lparr>g_status := ''completed'', g_result := Some ?code,
            g_files := Some ?urls, g_completed_at := Some (now_completed fallback_env)\<rparr>)"
    and "users (account_world 0 3) ''u1'' = Some user"
    and "users (fst ?H) = (users (account_world 0 3))(''u1'' \<mapsto>
           user\<lparr>generations_used := generations_used user + 1\<rparr>)"
    by blast
  then have "map_option g_status (generations (fst ?H) ''g1'') = Some ''completed''"
    and "users (fst ?H) ''u1'' = Some \<lparr>generations_used = 1, generations_limit = 3\<rparr>"
    by (auto simp: account_world_def)
  with run show ?thesis
    by (intro exI[of _ "fst ?H"] exI[of _ ?urls]) simp
qed

section \<open>An exception after the ledger insert\<close>

text \<open>
  Claim C6, as amended. When the insert has succeeded and a later step of the \<^verbatim>\<open>try\<close>
  block throws an error with some message, the statement of the \<^verbatim>\<open>catch\<close> block
  runs. When it succeeds, the row has status \<^verbatim>\<open>failed\<close> with that message as its
  error, and the answer is 500 with the fixed text. When it throws, its error leaves
  the handler: there is no answer and no \<^verbatim>\<open>failed\<close> mark. In both cases the accounts
  are as before the run.
\<close>

theorem exception_after_insert_marks_failed:
  assumes "select_error env = None"
    and "users w userId = Some user"
    and "generations_used user < generations_limit user"
    and "insert_generation env userId generationId req w = Inr w1"
    and "after_insert env userId generationId req w1 = (w2, Inl (Exn message))"
  shows "case fail_error env of
           None \<Rightarrow>
             (\<exists>w3 row.
                generate_handler env userId generationId req w
                  = (w3, Inr (Resp_error 500 ''Code generation failed''))
                \<and> generations w3 generationId = Some row
                \<and> g_status row = ''failed'' \<and> g_error row = Some message
                \<and> users w3 = users w)
         | Some m \<Rightarrow>
             generate_handler env userId generationId req w = (w2, Inl (Exn m))
             \<and> Ev_failed generationId \<notin> set (run_events w w2)
             \<and> users w2 = users w"
proof -
  from assms(1-5) have tr: "generate_try env userId generationId req w = (w2, Inl (Exn message))"
    by (simp add: generate_try_def select_user_def quota_reached_def)
  from assms(4) have u1: "users w1 = users w"
    and r1: "generations w1 generationId = Some (new_row env userId req)"
    and l1: "log w1 = log w @ [Ev_insert generationId]"
    by (auto simp: insert_generation_def add_event_def split: option.splits if_splits)
  from after_insert_status [OF assms(5) r1] assms(2) u1 obtain row2 es where
    u2: "users w2 = users w1" and r2: "generations w2 generationId = Some row2"
    and l2: "log w2 = log w1 @ es"
    and sw: "status_writes generationId es = [] \<or> status_writes generationId es = [''completed'']"
    by auto
  show ?thesis
  proof (cases "fail_error env")
    case None
    let ?row = "row2\<lparr>g_status := ''failed'', g_error := Some message\<rparr>"
    let ?w3 = "add_event (Ev_failed generationId)
                 (w2\<lparr>generations := (generations w2)(generationId \<mapsto> ?row)\<rparr>)"
    from None r2 have mf: "mark_failed env generationId message w2 = Inr ?w3"
      by (simp add: mark_failed_def)
    with tr have "generate_handler env userId generationId req w
                    = (?w3, Inr (Resp_error 500 ''Code generation failed''))"
      by (simp add: generate_handler_def)
    moreover have "generations ?w3 generationId = Some ?row" by (simp add: add_event_def)
    moreover have "users ?w3 = users w" using u1 u2 by (simp add: add_event_def)
    ultimately have "\<exists>w3 row.
                generate_handler env userId generationId req w
                  = (w3, Inr (Resp_error 500 ''Code generation failed''))
                \<and> generations w3 generationId = Some row
                \<and> g_status row = ''failed'' \<and> g_error row = Some message
                \<and> users w3 = users w"
      by (intro exI[of _ ?w3] exI[of _ ?row]) simp
    with None show ?thesis by simp
  next
    case (Some m)
    then have "mark_failed env generationId message w2 = Inl (Exn m)"
      by (simp add: mark_failed_def)
    with tr have h: "generate_handler env userId generationId req w = (w2, Inl (Exn m))"
      by (simp add: generate_handler_def)
    have nf: "Ev_failed generationId \<notin> set es"
    proof
      assume "Ev_failed generationId \<in> set es"
      then obtain a b where "es = a @ Ev_failed generationId # b"
        by (meson split_list)
      then have "''failed'' \<in> set (status_writes generationId es)"
        by (simp add: status_writes_append)
      with sw show False by auto
    qed
    have "run_events w w2 = Ev_insert generationId # es"
      using l1 l2 by (simp add: run_events_def)
    with nf have "Ev_failed generationId \<notin> set (run_events w w2)" by simp
    with h u1 u2 Some show ?thesis by simp
  qed
qed

text \<open>A run in which the first \<^verbatim>\<open>STORAGE.put\<close> throws.\<close>

theorem exception_after_insert_marks_failed_witness:
  "\<exists>w3 row.
     generate_handler put_fails_env ''u1'' ''g1'' todo_request (account_world 0 3)
       = (w3, Inr (Resp_error 500 ''Code generation failed''))
     \<and> generations w3 ''g1'' = Some row
     \<and> g_status row = ''failed'' \<and> g_error row = Some ''R2 put failed''
     \<and> users w3 = users (account_world 0 3)"
proof -
  let ?w1 = "add_event (Ev_insert ''g1'')
               ((account_world 0 3)\<lparr>generations :=
                  (generations (account_world 0 3))(''g1'' \<mapsto> new_row put_fails_env ''u1'' todo_request)\<rparr>)"
  let ?A = "after_insert put_fails_env ''u1'' ''g1'' todo_request ?w1"
  have e: "select_error put_fails_env = None"
    by (simp add: put_fails_env_def fallback_env_def)
  have u: "users (account_world 0 3) ''u1'' = Some \<lparr>generations_used = 0, generations_limit = 3\<rparr>"
    by (simp add: account_world_def)
  have q: "generations_used \<lparr>generations_used = 0, generations_limit = 3\<rparr>
             < generations_limit \<lparr>generations_used = 0, generations_limit = 3\<rparr>"
    by simp
  have i: "insert_generation put_fails_env ''u1'' ''g1'' todo_request (account_world 0 3) = Inr ?w1"
    by (simp add: insert_generation_def put_fails_env_def fallback_env_def account_world_def)
  have "snd ?A = Inl (Exn ''R2 put failed'')"
    by code_simp
  then have a: "?A = (fst ?A, Inl (Exn ''R2 put failed''))"
    by (metis prod.collapse)
  have f: "fail_error put_fails_env = None"
    by (simp add: put_fails_env_def fallback_env_def)
  from exception_after_insert_marks_failed [OF e u q i a] show ?thesis
    unfolding f option.case .
qed

text \<open>
  The claim as stated fails: the first \<^verbatim>\<open>STORAGE.put\<close> throws after the insert, the
  statement of the \<^verbatim>\<open>catch\<close> block throws as well, the handler ends with that error
  instead of the answer 500, and the row is left \<^verbatim>\<open>processing\<close>.
\<close>

theorem failed_update_throws:
  "snd (generate_handler outage_env ''u1'' ''g1'' todo_request (account_world 0 3))
     = Inl (Exn ''D1_ERROR: database unavailable'')
   \<and> map_option g_status (generations
        (fst (generate_handler outage_env ''u1'' ''g1'' todo_request (account_world 0 3)))
        ''g1'') = Some ''processing''
   \<and> run_events (account_world 0 3)
        (fst (generate_handler outage_env ''u1'' ''g1'' todo_request (account_world 0 3)))
       = [Ev_insert ''g1'', Ev_call_v0, Ev_call_ai]"
  by code_simp


section \<open>The statuses of a request\<close>

text \<open>
  Claim C7, as amended. For a fresh identifier, the statuses a run writes to its row
  are, in order, one of: nothing; \<^verbatim>\<open>processing\<close>; \<^verbatim>\<open>processing, completed\<close>;
  \<^verbatim>\<open>processing, failed\<close>; \<^verbatim>\<open>processing, completed, failed\<close>. Nothing is
  written after \<^verbatim>\<open>failed\<close>, and \<^verbatim>\<open>completed\<close> is followed by \<^verbatim>\<open>failed\<close> only
  when the usage increment throws.
\<close>

theorem status_written_in_order:
  assumes "generations w generationId = None"
    and "generate_handler env userId generationId req w = (w', r)"
  shows "let h = status_writes generationId (run_events w w') in
           (h = [] \<or> h = [''processing''] \<or> h = [''processing'', ''completed'']
            \<or> h = [''processing'', ''failed'']
            \<or> h = [''processing'', ''completed'', ''failed''])
           \<and> (h = [''processing'', ''completed'', ''failed''] \<longrightarrow> increment_error env \<noteq> None)"
proof -
  show ?thesis
  proof (cases "select_user env userId w")
    case (Inl e)
    then have "generate_try env userId generationId req w = (w, Inl e)"
      by (simp add: generate_try_def)
    from handler_idle [OF this assms(1) assms(2)] have "w' = w" .
    then show ?thesis by (simp add: run_events_def)
  next
    case su: (Inr user)
    show ?thesis
    proof (cases "quota_reached user")
      case True
      with su have "generate_try env userId generationId req w
                      = (w, Inr (Resp_error 429 ''Generation limit reached. Upgrade your plan to continue.''))"
        by (simp add: generate_try_def)
      from handler_idle [OF this assms(1) assms(2)] have "w' = w" .
    then show ?thesis by (simp add: run_events_def)
    next
      case nq: False
      show ?thesis
      proof (cases "insert_generation env userId generationId req w")
        case (Inl e)
        with su nq have "generate_try env userId generationId req w = (w, Inl e)"
          by (simp add: generate_try_def)
        from handler_idle [OF this assms(1) assms(2)] have "w' = w" .
    then show ?thesis by (simp add: run_events_def)
      next
        case ins: (Inr w1)
        from ins have lg1: "log w1 = log w @ [Ev_insert generationId]"
          and u1: "users w1 = users w"
          and r1: "generations w1 generationId = Some (new_row env userId req)"
          by (auto simp: insert_generation_def add_event_def split: option.splits if_splits)
        from su have usr: "users w1 userId = Some user"
          using u1 by (auto simp: select_user_def split: option.splits)
        obtain w2 r2 where ai: "after_insert env userId generationId req w1 = (w2, r2)"
          by (cases "after_insert env userId generationId req w1")
        from su nq ins ai have tr: "generate_try env userId generationId req w = (w2, r2)"
          by (simp add: generate_try_def)
        from after_insert_status [OF ai r1 usr] obtain es where
          lg2: "log w2 = log w1 @ es" and ex2: "generations w2 generationId \<noteq> None"
          and st0: "case r2 of
                      Inr resp \<Rightarrow> status_writes generationId es = [''completed'']
                    | Inl e \<Rightarrow>
                        users w2 = users w1
                        \<and> (status_writes generationId es = []
                           \<or> status_writes generationId es = [''completed'']
                              \<and> increment_error env \<noteq> None)"
          by blast
        from ex2 obtain row2 where r2: "generations w2 generationId = Some row2"
          by auto
        have st: "case r2 of
                     Inr resp \<Rightarrow> status_writes generationId es = [''completed'']
                   | Inl e \<Rightarrow>
                       status_writes generationId es = []
                       \<or> status_writes generationId es = [''completed'']
                          \<and> increment_error env \<noteq> None"
          using st0 by (cases r2) auto
        show ?thesis
        proof (cases r2)
          case (Inr resp)
          with tr assms(2) have "w' = w2" by (simp add: generate_handler_def)
          with lg1 lg2 st Inr show ?thesis
            by (simp add: run_events_def status_writes_append Let_def)
        next
          case (Inl e)
          obtain m where e: "e = Exn m" by (cases e)
          from st Inl have sw: "status_writes generationId es = []
                       \<or> status_writes generationId es = [''completed'']
                          \<and> increment_error env \<noteq> None"
            by simp
          show ?thesis
          proof (cases "mark_failed env generationId m w2")
            case mf: (Inl e2)
            with tr Inl e assms(2) have "w' = w2" by (simp add: generate_handler_def)
            with lg1 lg2 sw show ?thesis
              by (auto simp: run_events_def status_writes_append Let_def)
          next
            case mf: (Inr w3)
            with tr Inl e assms(2) have "w' = w3" by (simp add: generate_handler_def)
            with mark_failed_effect [OF mf] r2 have "log w' = log w2 @ [Ev_failed generationId]"
              by simp
            with lg1 lg2 sw show ?thesis
              by (auto simp: run_events_def status_writes_append Let_def)
          qed
        qed
      qed
    qed
  qed
qed

theorem status_written_in_order_witness:
  "generations (account_world 0 3) ''g1'' = None
   \<and> status_writes ''g1'' (run_events (account_world 0 3)
        (fst (generate_handler fallback_env ''u1'' ''g1'' todo_request (account_world 0 3))))
      = [''processing'', ''completed'']"
proof -
  have f: "generations (account_world 0 3) ''g1'' = None"
    by (simp add: account_world_def)
  have h: "status_writes ''g1'' (run_events (account_world 0 3)
        (fst (generate_handler fallback_env ''u1'' ''g1'' todo_request (account_world 0 3))))
      = [''processing'', ''completed'']"
    by code_simp
  from status_written_in_order [OF f surjective_pairing, of fallback_env "''u1''" todo_request] f h
  show ?thesis by simp
qed

text \<open>
  The claim as stated fails: when the usage increment throws after the completed
  update, the \<^verbatim>\<open>catch\<close> block sets the completed row to \<^verbatim>\<open>failed\<close>.
\<close>

theorem completed_then_failed:
  "status_writes ''g1'' (run_events (account_world 0 3)
      (fst (generate_handler increment_fails_env ''u1'' ''g1'' todo_request (account_world 0 3))))
     = [''processing'', ''completed'', ''failed'']
   \<and> map_option g_status (generations
        (fst (generate_handler increment_fails_env ''u1'' ''g1'' todo_request (account_world 0 3)))
        ''g1'') = Some ''failed''"
  by code_simp

section \<open>The artifact store\<close>



section \<open>A primary answer without files\<close>

text \<open>
  Claim C10. When the primary provider answers successfully with a body whose
  \<^verbatim>\<open>files\<close> is absent, \<^verbatim>\<open>null\<close> or the empty array, and no database statement
  throws, the workflow completes: the answer carries the code with an empty file list,
  the row is \<^verbatim>\<open>completed\<close> with an empty descriptor list, nothing is written to
  the blob store and the fallback is not called. So at least one artifact is
  guaranteed by the fallback's synthesized output only, not by the workflow.
\<close>

theorem primary_without_files_completes:
  assumes "V0_API_KEY env = Some k" and "k \<noteq> []"
    and "fetch_v0 env = Fetch_response status body" and "response_ok status"
    and "JSON_parse (strip_bom body) = Some result"
    and "js_get result ''files'' = Inr fv"
    and "fv = None \<or> fv = Some JNull \<or> fv = Some (JArr [])"
    and "select_error env = None" and "users w userId = Some user"
    and "generations_used user < generations_limit user"
    and "insert_error env = None" and "generations w generationId = None"
    and "complete_error env = None" and "increment_error env = None"
  shows "\<exists>w' code row.
           generate_handler env userId generationId req w
             = (w', Inr (Resp_generated generationId code [] ''Code generated successfully''))
           \<and> js_get code ''files'' = Inr (Some (JArr []))
           \<and> generations w' generationId = Some row
           \<and> g_status row = ''completed'' \<and> g_files row = Some []
           \<and> storage w' = storage w
           \<and> run_events w w'
               = [Ev_insert generationId, Ev_call_v0, Ev_completed generationId, Ev_increment userId]"
proof -
  from js_get_total [OF assms(6)] obtain d where d: "js_get result ''description'' = Inr d"
    by blast
  from js_get_total [OF assms(6)] obtain i where i: "js_get result ''instructions'' = Inr i"
    by blast
  let ?code = "JObj [(''files'', JArr []),
                     (''description'', js_or d (JStr ''Generated with v0'')),
                     (''instructions'', js_or i (JStr ''Standard React component setup''))]"
  have tr: "transform_result result = Inr ?code"
    using assms(6,7) d i by (auto simp: transform_result_def)
  have v0: "callV0API (V0_API_KEY env) (fetch_v0 env) = Inr ?code"
    using assms(1-5) tr by (simp add: callV0API_def)
  let ?w1 = "add_event (Ev_insert generationId)
               (w\<lparr>generations := (generations w)(generationId \<mapsto> new_row env userId req)\<rparr>)"
  let ?w2 = "add_event Ev_call_v0 ?w1"
  let ?row = "(new_row env userId req)\<lparr>g_status := ''completed'', g_result := Some ?code,
                 g_files := Some [], g_completed_at := Some (now_completed env)\<rparr>"
  let ?w3 = "add_event (Ev_completed generationId)
               (?w2\<lparr>generations := (generations ?w2)(generationId \<mapsto> ?row)\<rparr>)"
  let ?w4 = "add_event (Ev_increment userId)
               (?w3\<lparr>users := (users ?w3)(userId \<mapsto>
                    user\<lparr>generations_used := generations_used user + 1\<rparr>)\<rparr>)"
  have ins: "insert_generation env userId generationId req w = Inr ?w1"
    using assms(11,12) by (simp add: insert_generation_def)
  have rp: "run_providers env req ?w1 = (?w2, Inr ?code)"
    using v0 by (simp add: run_providers_def Let_def)
  have cg: "complete_generation env generationId ?code [] ?w2 = Inr ?w3"
    using assms(13) by (simp add: complete_generation_def add_event_def)
  have iu: "increment_usage env userId ?w3 = Inr ?w4"
    using assms(14,9) by (simp add: increment_usage_def add_event_def)
  have fin: "store_and_finalize env userId generationId ?code ?w2
               = (?w4, Inr (Resp_generated generationId ?code [] ''Code generated successfully''))"
    using cg iu by (simp add: store_and_finalize_def js_or_def)
  have "generate_try env userId generationId req w
          = (?w4, Inr (Resp_generated generationId ?code [] ''Code generated successfully''))"
    using assms(8-10) ins rp fin
    by (simp add: generate_try_def select_user_def quota_reached_def after_insert_def)
  then have h: "generate_handler env userId generationId req w
          = (?w4, Inr (Resp_generated generationId ?code [] ''Code generated successfully''))"
    by (simp add: generate_handler_def)
  have "js_get ?code ''files'' = Inr (Some (JArr []))" by simp
  moreover have "generations ?w4 generationId = Some ?row" by (simp add: add_event_def)
  moreover have "g_status ?row = ''completed''" "g_files ?row = Some []" by simp_all
  moreover have "storage ?w4 = storage w" by (simp add: add_event_def)
  moreover have "run_events w ?w4
               = [Ev_insert generationId, Ev_call_v0, Ev_completed generationId, Ev_increment userId]"
    by (simp add: run_events_def add_event_def)
  ultimately show ?thesis using h
    by (intro exI[of _ ?w4] exI[of _ ?code] exI[of _ ?row]) simp
qed

theorem primary_without_files_completes_witness:
  "\<exists>w' code row.
     generate_handler empty_answer_env ''u1'' ''g1'' todo_request (account_world 0 3)
       = (w', Inr (Resp_generated ''g1'' code [] ''Code generated successfully''))
     \<and> js_get code ''files'' = Inr (Some (JArr []))
     \<and> generations w' ''g1'' = Some row
     \<and> g_status row = ''completed'' \<and> g_files row = Some []
     \<and> storage w' = storage (account_world 0 3)
     \<and> run_events (account_world 0 3) w'
         = [Ev_insert ''g1'', Ev_call_v0, Ev_completed ''g1'', Ev_increment ''u1'']"
proof -
  have p: "JSON_parse (strip_bom ''{}'') = Some (JObj [])" by code_simp
  have g: "js_get (JObj []) ''files'' = Inr None" by simp
  have u: "users (account_world 0 3) ''u1'' = Some \<lparr>generations_used = 0, generations_limit = 3\<rparr>"
    by (simp add: account_world_def)
  have q: "generations_used \<lparr>generations_used = 0, generations_limit = 3\<rparr>
             < generations_limit \<lparr>generations_used = 0, generations_limit = 3\<rparr>"
    by simp
  show ?thesis
    by (rule primary_without_files_completes
              [where env = empty_answer_env and k = "''v0-key''" and status = 200 and body = "''{}''"
                 and result = "JObj []" and fv = None and user = "\<lparr>generations_used = 0, generations_limit = 3\<rparr>",
               OF _ _ _ _ p g _ _ u q])
       (simp_all add: empty_answer_env_def fallback_env_def account_world_def response_ok_def)
qed

section \<open>The fallback's extraction\<close>

text \<open>
  Claim C4, as amended. For every raw response, \<^verbatim>\<open>generateCode\<close> takes the text of a
  fenced \<^verbatim>\<open>```json\<close> block when the response has one: the text taken lies between a
  \<^verbatim>\<open>```json\<close> and a closing fence, without the white space around it (it is the
  block itself when nothing else is between them). For the first \<^verbatim>\<open>```json\<close> of the
  response, followed by white space, a body that begins and ends with an ASCII
  character that is not white space, white space and the first closing fence, the
  text taken is that body, whatever braces surround the block. When the response has
  no fenced block, the text taken is the span from the first \<^verbatim>\<open>{\<close> to the last
  \<^verbatim>\<open>}\<close>. Neither pattern matches exactly when the response has no fenced block and
  no \<^verbatim>\<open>{\<close> followed by a \<^verbatim>\<open>}\<close>; then the result is the synthesized structure:
  exactly one file, whose content includes the prompt verbatim. When a pattern
  matches, the result is the parsed value of the extracted text, and
  \<^verbatim>\<open>generateCode\<close> throws \<^verbatim>\<open>AI code generation failed\<close> when that text is not JSON.
\<close>

theorem fallback_extraction:
  "(has_fenced_block raw \<longrightarrow>
      (\<exists>pre lead g trail post.
          raw = pre @ fence @ ''json'' @ lead @ g @ trail @ fence @ post
          \<and> white lead \<and> white trail
          \<and> extract_json raw
              = Some (if g \<noteq> [] then g else fence @ ''json'' @ lead @ trail @ fence)))
   \<and> (\<not> sublist (fence @ ''json'') (pre @ fence @ ''jso'') \<and> white lead \<and> g \<noteq> []
        \<and> plain (hd g) \<and> plain (last g) \<and> white trail
        \<and> \<not> sublist fence (g @ trail @ [CHR 0x60, CHR 0x60]) \<longrightarrow>
        extract_json (pre @ fence @ ''json'' @ lead @ g @ trail @ fence @ post) = Some g)
   \<and> (\<not> has_fenced_block (before @ ''{'' @ body @ ''}'' @ after)
        \<and> CHR ''{'' \<notin> set before \<and> CHR ''}'' \<notin> set after \<longrightarrow>
        extract_json (before @ ''{'' @ body @ ''}'' @ after) = Some (''{'' @ body @ ''}''))
   \<and> (extract_json raw = None \<longleftrightarrow> \<not> has_fenced_block raw \<and> \<not> has_braces raw)
   \<and> (extract_json raw = None \<longrightarrow>
        generateCode prompt t f (AI_response (Some raw)) = Inr (synthesized prompt t f)
        \<and> (\<exists>content.
              js_get (synthesized prompt t f) ''files''
                = Inr (Some (JArr [JObj [(''name'', JStr ''component.tsx''),
                                         (''content'', JStr content),
                                         (''type'', JStr ''text/tsx'')]]))
              \<and> sublist prompt content))
   \<and> (extract_json raw = Some extracted \<longrightarrow>
        generateCode prompt t f (AI_response (Some raw))
          = (case JSON_parse extracted of
               None \<Rightarrow> Inl (Exn ''AI code generation failed'')
             | Some v \<Rightarrow> Inr v))"
proof (intro conjI impI)
  assume "has_fenced_block raw"
  with match_fenced_finds [of raw] obtain whole g where mf: "match_fenced raw = Some (whole, g)"
    by (cases "match_fenced raw") auto
  from match_fenced_parts [OF mf] obtain a lead trail c where
    p: "raw = a @ fence @ ''json'' @ lead @ g @ trail @ fence @ c"
       "whole = fence @ ''json'' @ lead @ g @ trail @ fence" "white lead" "white trail"
    by blast
  have "extract_json raw = Some (if g \<noteq> [] then g else whole)"
    using mf by (simp add: extract_json_def)
  also have "(if g \<noteq> [] then g else whole)
               = (if g \<noteq> [] then g else fence @ ''json'' @ lead @ trail @ fence)"
    using p(2) by simp
  finally show "\<exists>pre lead g trail post.
          raw = pre @ fence @ ''json'' @ lead @ g @ trail @ fence @ post
          \<and> white lead \<and> white trail
          \<and> extract_json raw
              = Some (if g \<noteq> [] then g else fence @ ''json'' @ lead @ trail @ fence)"
    using p(1,3,4) by blast
next
  assume a: "\<not> sublist (fence @ ''json'') (pre @ fence @ ''jso'') \<and> white lead \<and> g \<noteq> []
        \<and> plain (hd g) \<and> plain (last g) \<and> white trail
        \<and> \<not> sublist fence (g @ trail @ [CHR 0x60, CHR 0x60])"
  then have h: "\<not> sublist (fence @ ''json'') (pre @ fence @ ''jso'')" "white lead" "g \<noteq> []"
    "plain (hd g)" "plain (last g)" "white trail"
    "\<not> sublist fence (g @ trail @ [CHR 0x60, CHR 0x60])"
    by blast+
  from match_fenced_block [OF h] h(3)
  have "match_fenced (pre @ fence @ ''json'' @ lead @ g @ trail @ fence @ post)
               = Some (fence @ ''json'' @ lead @ g @ trail @ fence, g)" and "g \<noteq> []"
    by blast+
  then show "extract_json (pre @ fence @ ''json'' @ lead @ g @ trail @ fence @ post) = Some g"
    by (simp only: extract_json_def option.case prod.case simp_thms if_True)
next
  assume a: "\<not> has_fenced_block (before @ ''{'' @ body @ ''}'' @ after)
        \<and> CHR ''{'' \<notin> set before \<and> CHR ''}'' \<notin> set after"
  then have "match_fenced (before @ ''{'' @ body @ ''}'' @ after) = None"
    using match_fenced_None_iff by blast
  moreover from a have "match_braces (before @ ''{'' @ body @ ''}'' @ after) = Some (''{'' @ body @ ''}'')"
    using match_braces_span [of before after body] by blast
  ultimately show "extract_json (before @ ''{'' @ body @ ''}'' @ after) = Some (''{'' @ body @ ''}'')"
    by (simp only: extract_json_def option.case)
next
  show "extract_json raw = None \<longleftrightarrow> \<not> has_fenced_block raw \<and> \<not> has_braces raw"
    using match_fenced_None_iff [of raw] match_braces_None_iff [of raw]
    by (cases "match_fenced raw") (auto simp: extract_json_def)
next
  assume "extract_json raw = None"
  then show "generateCode prompt t f (AI_response (Some raw)) = Inr (synthesized prompt t f)"
    by (simp add: generateCode_def)
next
  show "\<exists>content.
          js_get (synthesized prompt t f) ''files''
            = Inr (Some (JArr [JObj [(''name'', JStr ''component.tsx''),
                                     (''content'', JStr content),
                                     (''type'', JStr ''text/tsx'')]]))
          \<and> sublist prompt content"
    using prompt_in_fallback_code [of prompt t f]
    by (intro exI[of _ "generateFallbackCode prompt t f"]) (simp add: synthesized_def)
next
  assume "extract_json raw = Some extracted"
  then show "generateCode prompt t f (AI_response (Some raw))
          = (case JSON_parse extracted of
               None \<Rightarrow> Inl (Exn ''AI code generation failed'')
             | Some v \<Rightarrow> Inr v)"
    by (simp add: generateCode_def)
qed

text \<open>
  A fenced block between texts with braces of their own, a bare object between other
  text, a response with neither, and an empty fenced block.
\<close>

theorem fallback_extraction_witness:
  "extract_json (''Here {you} go: '' @ fence @ ''json'' @ nl @ one_file_answer @ nl @ fence @ '' Enjoy {it}!'')
     = Some one_file_answer
   \<and> extract_json (''Sure: '' @ one_file_answer @ '' - done'') = Some one_file_answer
   \<and> extract_json ''I cannot help with that'' = None
   \<and> generateCode ''Build a todo list'' ''component'' ''react''
        (AI_response (Some ''I cannot help with that''))
      = Inr (synthesized ''Build a todo list'' ''component'' ''react'')
   \<and> generateCode ''Build a todo list'' ''component'' ''react''
        (AI_response (Some (''Sure: '' @ one_file_answer @ '' - done'')))
      = Inr (JObj [(''files'', JArr [JObj [(''name'', JStr ''a.tsx''), (''content'', JStr ''X'')]])])
   \<and> generateCode ''Build a todo list'' ''component'' ''react''
        (AI_response (Some (''Here {you} go: '' @ fence @ ''json'' @ nl @ one_file_answer @ nl
                              @ fence @ '' Enjoy {it}!'')))
      = Inr (JObj [(''files'', JArr [JObj [(''name'', JStr ''a.tsx''), (''content'', JStr ''X'')]])])
   \<and> (\<exists>pre lead g trail post.
         fence @ ''json'' @ fence
           = pre @ fence @ ''json'' @ lead @ g @ trail @ fence @ post
         \<and> white lead \<and> white trail
         \<and> extract_json (fence @ ''json'' @ fence)
             = Some (if g \<noteq> [] then g else fence @ ''json'' @ lead @ trail @ fence))"
proof -
  let ?body = "butlast (tl one_file_answer)"
  let ?bare = "''Sure: '' @ ''{'' @ ?body @ ''}'' @ '' - done''"
  let ?fenced = "''Here {you} go: '' @ fence @ ''json'' @ nl @ one_file_answer @ nl @ fence
                   @ '' Enjoy {it}!''"
  have ofa: "''{'' @ ?body @ ''}'' = one_file_answer"
    by (simp add: one_file_answer_def)
  have ofa2: "''{'' @ ?body @ ''}'' @ x = one_file_answer @ x" for x
    using ofa by (metis append_assoc)
  have f1: "\<not> sublist (fence @ ''json'') (''Here {you} go: '' @ fence @ ''jso'')"
    by code_simp
  have f2: "white nl" by code_simp
  have f3: "one_file_answer \<noteq> []" by (simp add: one_file_answer_def)
  have f4: "\<not> sublist fence (one_file_answer @ nl @ [CHR 0x60, CHR 0x60])"
    by code_simp
  have f5: "plain (hd one_file_answer)" "plain (last one_file_answer)"
    by (simp_all add: one_file_answer_def plain_def ws1_def code_of_def)
  have b1: "\<not> has_fenced_block ?bare"
    by (rule no_backtick_no_block) (simp add: one_file_answer_def)
  have b2: "CHR ''{'' \<notin> set ''Sure: ''" "CHR ''}'' \<notin> set '' - done''" by simp_all
  have n1: "\<not> has_fenced_block ''I cannot help with that''"
    by (rule no_backtick_no_block) simp
  have n2: "\<not> has_braces ''I cannot help with that''"
    by (rule no_brace_no_braces) simp
  have e1: "has_fenced_block (fence @ ''json'' @ fence)"
    unfolding has_fenced_block_def by (intro exI[of _ "[]"]) simp
  have p: "JSON_parse one_file_answer
             = Some (JObj [(''files'', JArr [JObj [(''name'', JStr ''a.tsx''), (''content'', JStr ''X'')]])])"
    by code_simp
  note inst = fallback_extraction [where pre = "''Here {you} go: ''" and lead = nl
      and g = one_file_answer and trail = nl and post = "'' Enjoy {it}!''"
      and before = "''Sure: ''" and body = "?body" and after = "'' - done''"
      and raw = "''I cannot help with that''"
      and prompt = "''Build a todo list''" and t = "''component''" and f = "''react''"
      and extracted = "[]"]
  from inst f1 f2 f3 f4 f5 have a: "extract_json ?fenced = Some one_file_answer"
    by blast
  from inst b1 b2 have "extract_json ?bare = Some (''{'' @ ?body @ ''}'')"
    by blast
  then have b: "extract_json (''Sure: '' @ one_file_answer @ '' - done'') = Some one_file_answer"
    by (simp only: ofa ofa2)
  from inst n1 n2 have c: "extract_json ''I cannot help with that'' = None"
    by blast
  from inst c have d: "generateCode ''Build a todo list'' ''component'' ''react''
        (AI_response (Some ''I cannot help with that''))
      = Inr (synthesized ''Build a todo list'' ''component'' ''react'')"
    by blast
  from fallback_extraction [where raw = "''Sure: '' @ one_file_answer @ '' - done''"
      and prompt = "''Build a todo list''" and t = "''component''" and f = "''react''"
      and extracted = one_file_answer] b p
  have e: "generateCode ''Build a todo list'' ''component'' ''react''
        (AI_response (Some (''Sure: '' @ one_file_answer @ '' - done'')))
      = Inr (JObj [(''files'', JArr [JObj [(''name'', JStr ''a.tsx''), (''content'', JStr ''X'')]])])"
    by simp
  from fallback_extraction [where raw = "?fenced"
      and prompt = "''Build a todo list''" and t = "''component''" and f = "''react''"
      and extracted = one_file_answer] a p
  have f: "generateCode ''Build a todo list'' ''component'' ''react'' (AI_response (Some ?fenced))
      = Inr (JObj [(''files'', JArr [JObj [(''name'', JStr ''a.tsx''), (''content'', JStr ''X'')]])])"
    by simp
  from fallback_extraction [where raw = "fence @ ''json'' @ fence"] e1
  have g: "\<exists>pre lead g trail post.
         fence @ ''json'' @ fence
           = pre @ fence @ ''json'' @ lead @ g @ trail @ fence @ post
         \<and> white lead \<and> white trail
         \<and> extract_json (fence @ ''json'' @ fence)
             = Some (if g \<noteq> [] then g else fence @ ''json'' @ lead @ trail @ fence)"
    by blast
  from a b c d e f g show ?thesis by blast
qed

text \<open>
  The claim as stated fails: the response \<^verbatim>\<open>{oops}\<close> contains no piece that parses
  to a JSON object, the second pattern matches it, \<^verbatim>\<open>JSON.parse\<close> throws, and the
  adapter fails instead of synthesizing a file.
\<close>

theorem unparseable_braces_throw:
  "\<not> contains_json_object ''{oops}''
   \<and> generateCode ''Build a todo list'' ''component'' ''react'' (AI_response (Some ''{oops}''))
       = Inl (Exn ''AI code generation failed'')"
  by code_simp


section \<open>The failure policy of the providers\<close>




text \<open>
  Two more such runs, in which no statement of the store or the database throws: the
  fallback returns \<^verbatim>\<open>null\<close>, and the fallback returns an object whose \<^verbatim>\<open>files\<close> is a
  number. Reading \<^verbatim>\<open>files\<close> of \<^verbatim>\<open>null\<close> throws, and so does the loop over a number.
\<close>

lemma fails_on_unusable_result:
  "generateCode (req_prompt todo_request) (type_name (req_type todo_request))
      (framework_name (framework_of todo_request)) (ai_run null_answer_env) = Inr JNull
   \<and> snd (generate_handler null_answer_env ''u1'' ''g1'' todo_request (account_world 0 3))
       = Inr (Resp_error 500 ''Code generation failed'')
   \<and> generateCode (req_prompt todo_request) (type_name (req_type todo_request))
      (framework_name (framework_of todo_request)) (ai_run number_files_env)
       = Inr (JObj [(''files'', JNum ''5'')])
   \<and> snd (generate_handler number_files_env ''u1'' ''g1'' todo_request (account_world 0 3))
       = Inr (Resp_error 500 ''Code generation failed'')"
  by code_simp

end
